theory Spec2Isabelle
  imports Main
begin

section \<open>The PEG dominance tree of libFirm (ir/ana/peg\_dom.c)\<close>

text \<open>
  A shallow embedding of \<^verbatim>\<open>src/ir/ana/peg_dom.c\<close>.

  \<^item> An \<^verbatim>\<open>ir_node *\<close> is a natural number (the node's identity).
  \<^item> A \<^verbatim>\<open>pd_node *\<close> is the identity of the IR node the record was allocated for:
    the phase allocates one record per IR node, so the two are in bijection. The
    phase (\<^verbatim>\<open>phase_get_irn_data\<close>) is a partial map from node identities to records;
    a \<^verbatim>\<open>NULL\<close> pointer is \<open>None\<close>.
  \<^item> \<^verbatim>\<open>int\<close> indices are mathematical integers: the only arithmetic on them is
    \<^verbatim>\<open>counter + 1\<close>, bounded by the number of nodes of the graph.
  \<^item> The \<^verbatim>\<open>plist_t\<close> of children is a list of \<^verbatim>\<open>pd_node *\<close>, in list order.
  \<^item> The visited flags of the graph (\<^verbatim>\<open>irn_visited\<close>, \<^verbatim>\<open>mark_irn_visited\<close>,
    \<^verbatim>\<open>inc_irg_visited\<close>) are a set of nodes that starts empty in each pass.
  \<^item> An assertion failure and the dereference of a \<^verbatim>\<open>NULL\<close> pointer are error values.
  \<^item> Recursion over the graph and the \<^verbatim>\<open>while\<close> loops take a fuel argument; \<open>None\<close>
    is "no result within the fuel".
\<close>

subsection \<open>The dependence graph\<close>

text \<open>
  The graph as the analysis reads it: \<open>end_cfgpred\<close> is
  \<^verbatim>\<open>get_Block_cfgpred(get_irg_end_block(irg), 0)\<close>, \<open>is_Return\<close> the predicate of the same
  name, \<open>ins n\<close> the operands \<^verbatim>\<open>get_irn_n(n, 0 .. get_irn_arity(n) - 1)\<close> and \<open>outs n\<close>
  the source nodes of the out edges of \<open>n\<close> in the order \<^verbatim>\<open>foreach_out_edge\<close> enumerates
  them.
\<close>

record ir_graph =
  end_cfgpred :: nat
  is_Return :: "nat \<Rightarrow> bool"
  ins :: "nat \<Rightarrow> nat list"
  outs :: "nat \<Rightarrow> nat list"

subsection \<open>The tree\<close>

datatype error = AssertFail | NullDeref

record pd_node =
  irn :: "nat option"
  defined :: bool
  index :: int
  max_index :: int
  children :: "nat list"
  parent :: "nat option"

record pd_tree =
  root :: nat
  phase :: "nat \<Rightarrow> pd_node option"

text \<open>\<^verbatim>\<open>pd_init_node\<close>: a zeroed record with an empty list of children.\<close>

definition pd_init_node :: pd_node where
  "pd_init_node =
     \<lparr>irn = None, defined = False, index = 0, max_index = 0, children = [], parent = None\<rparr>"

text \<open>
  Modelled from the spec: the phase of \<^verbatim>\<open>irphase_t.h\<close> (the lookup from a node to its
  record). \<^verbatim>\<open>phase_get_irn_data\<close> returns the record or \<^verbatim>\<open>NULL\<close>;
  \<^verbatim>\<open>phase_get_or_set_irn_data\<close> allocates a record with \<^verbatim>\<open>pd_init_node\<close> when there is
  none, and returns the record.
\<close>

definition phase_get_irn_data :: "pd_tree \<Rightarrow> nat \<Rightarrow> pd_node option" where
  "phase_get_irn_data pdt n = phase pdt n"

definition phase_get_or_set_irn_data :: "pd_tree \<Rightarrow> nat \<Rightarrow> pd_node \<times> pd_tree" where
  "phase_get_or_set_irn_data pdt n =
     (case phase pdt n of
        Some d \<Rightarrow> (d, pdt)
      | None \<Rightarrow> (pd_init_node, pdt\<lparr>phase := (phase pdt)(n \<mapsto> pd_init_node)\<rparr>))"

text \<open>A store through a \<^verbatim>\<open>pd_node *\<close>.\<close>

definition put_node :: "nat \<Rightarrow> pd_node \<Rightarrow> pd_tree \<Rightarrow> pd_tree" where
  "put_node p d pdt = pdt\<lparr>phase := (phase pdt)(p \<mapsto> d)\<rparr>"

text \<open>
  \<^verbatim>\<open>pd_set_parent\<close>. Modelled from the spec: the list operations of \<^verbatim>\<open>plist.h\<close>
  (\<^verbatim>\<open>plist_find_value\<close> finds the first element holding the value, \<^verbatim>\<open>plist_erase\<close>
  removes that element, \<^verbatim>\<open>plist_insert_back\<close> appends).
\<close>

definition pd_detach :: "nat \<Rightarrow> pd_tree \<Rightarrow> error + pd_tree" where
  "pd_detach child pdt =
     (case phase pdt child of
        None \<Rightarrow> Inl NullDeref
      | Some c \<Rightarrow>
          (case parent c of
             None \<Rightarrow> Inr pdt
           | Some op \<Rightarrow>
               (case phase pdt op of
                  None \<Rightarrow> Inl NullDeref
                | Some od \<Rightarrow>
                    if child \<in> set (children od)
                    then Inr (put_node op (od\<lparr>children := remove1 child (children od)\<rparr>) pdt)
                    else Inl AssertFail)))"

definition pd_attach :: "nat \<Rightarrow> nat \<Rightarrow> pd_tree \<Rightarrow> error + pd_tree" where
  "pd_attach par child pdt =
     (case phase pdt child of
        None \<Rightarrow> Inl NullDeref
      | Some c \<Rightarrow>
          (let pdt1 = put_node child (c\<lparr>parent := Some par\<rparr>) pdt in
           case phase pdt1 par of
             None \<Rightarrow> Inl NullDeref
           | Some p \<Rightarrow> Inr (put_node par (p\<lparr>children := children p @ [child]\<rparr>) pdt1)))"

definition pd_set_parent :: "nat \<Rightarrow> nat \<Rightarrow> pd_tree \<Rightarrow> error + pd_tree" where
  "pd_set_parent par child pdt =
     (case pd_detach child pdt of
        Inl e \<Rightarrow> Inl e
      | Inr pdt1 \<Rightarrow> pd_attach par child pdt1)"

subsection \<open>Post-order indices\<close>

text \<open>
  \<^verbatim>\<open>pd_compute_indices_post\<close>: the state is the tree and the visited set, the counter is
  passed and returned. \<open>pd_compute_indices_post_deps\<close> is the \<^verbatim>\<open>for\<close> loop over the
  operands.
\<close>

fun pd_compute_indices_post ::
    "nat \<Rightarrow> ir_graph \<Rightarrow> nat \<Rightarrow> pd_tree \<times> nat set \<Rightarrow> int \<Rightarrow> ((pd_tree \<times> nat set) \<times> int) option"
  and pd_compute_indices_post_deps ::
    "nat \<Rightarrow> ir_graph \<Rightarrow> nat list \<Rightarrow> pd_tree \<times> nat set \<Rightarrow> int \<Rightarrow> ((pd_tree \<times> nat set) \<times> int) option"
where
  "pd_compute_indices_post 0 g n s counter = None"
| "pd_compute_indices_post (Suc fuel) g n (pdt, visited) counter =
     (if n \<in> visited then Some ((pdt, visited), counter)
      else
        (case pd_compute_indices_post_deps fuel g (ins g n) (pdt, insert n visited) counter of
           None \<Rightarrow> None
         | Some ((pdt1, visited1), counter1) \<Rightarrow>
             (case phase_get_or_set_irn_data pdt1 n of
                (pdn, pdt2) \<Rightarrow>
                  Some ((put_node n (pdn\<lparr>irn := Some n, index := counter1\<rparr>) pdt2, visited1),
                        counter1 + 1))))"
| "pd_compute_indices_post_deps fuel g [] s counter = Some (s, counter)"
| "pd_compute_indices_post_deps fuel g (dep # deps) s counter =
     (case pd_compute_indices_post fuel g dep s counter of
        None \<Rightarrow> None
      | Some (s1, counter1) \<Rightarrow> pd_compute_indices_post_deps fuel g deps s1 counter1)"

subsection \<open>Indices for queries\<close>

text \<open>
  \<^verbatim>\<open>pd_compute_indices_dom\<close>; \<open>pd_compute_indices_dom_list\<close> is the \<^verbatim>\<open>foreach_plist\<close>
  loop over the children, which passes \<^verbatim>\<open>counter + 1\<close> to each child.
\<close>

fun pd_compute_indices_dom ::
    "nat \<Rightarrow> nat \<Rightarrow> pd_tree \<Rightarrow> int \<Rightarrow> (error + pd_tree \<times> int) option"
  and pd_compute_indices_dom_list ::
    "nat \<Rightarrow> nat list \<Rightarrow> pd_tree \<Rightarrow> int \<Rightarrow> (error + pd_tree \<times> int) option"
where
  "pd_compute_indices_dom 0 p pdt counter = None"
| "pd_compute_indices_dom (Suc fuel) p pdt counter =
     (case phase pdt p of
        None \<Rightarrow> Some (Inl NullDeref)
      | Some pdn \<Rightarrow>
          (case pd_compute_indices_dom_list fuel (children pdn)
                  (put_node p (pdn\<lparr>index := counter\<rparr>) pdt) counter of
             None \<Rightarrow> None
           | Some (Inl e) \<Rightarrow> Some (Inl e)
           | Some (Inr (pdt1, counter1)) \<Rightarrow>
               (case phase pdt1 p of
                  None \<Rightarrow> Some (Inl NullDeref)
                | Some pdn1 \<Rightarrow>
                    Some (Inr (put_node p (pdn1\<lparr>max_index := counter1\<rparr>) pdt1, counter1)))))"
| "pd_compute_indices_dom_list fuel [] pdt counter = Some (Inr (pdt, counter))"
| "pd_compute_indices_dom_list fuel (c # cs) pdt counter =
     (case pd_compute_indices_dom fuel c pdt (counter + 1) of
        None \<Rightarrow> None
      | Some (Inl e) \<Rightarrow> Some (Inl e)
      | Some (Inr (pdt1, counter1)) \<Rightarrow> pd_compute_indices_dom_list fuel cs pdt1 counter1)"

subsection \<open>The solver\<close>

text \<open>
  The inner loops of \<^verbatim>\<open>pd_compute_intersect\<close>:
  \<^verbatim>\<open>while (lhs->index < rhs->index) lhs = lhs->parent;\<close>. When \<^verbatim>\<open>lhs->parent\<close> is
  \<^verbatim>\<open>NULL\<close> the next test of the condition dereferences it.
\<close>

fun pd_walk_up :: "nat \<Rightarrow> pd_tree \<Rightarrow> nat \<Rightarrow> nat \<Rightarrow> (error + nat) option" where
  "pd_walk_up 0 pdt lhs rhs = None"
| "pd_walk_up (Suc fuel) pdt lhs rhs =
     (case phase pdt lhs of
        None \<Rightarrow> Some (Inl NullDeref)
      | Some l \<Rightarrow>
          (case phase pdt rhs of
             None \<Rightarrow> Some (Inl NullDeref)
           | Some r \<Rightarrow>
               if index l < index r
               then (case parent l of
                       None \<Rightarrow> Some (Inl NullDeref)
                     | Some p \<Rightarrow> pd_walk_up fuel pdt p rhs)
               else Some (Inr lhs)))"

fun pd_compute_intersect :: "nat \<Rightarrow> pd_tree \<Rightarrow> nat \<Rightarrow> nat \<Rightarrow> (error + nat) option" where
  "pd_compute_intersect 0 pdt lhs rhs = None"
| "pd_compute_intersect (Suc fuel) pdt lhs rhs =
     (if lhs = rhs then Some (Inr lhs)
      else
        (case pd_walk_up (Suc fuel) pdt lhs rhs of
           None \<Rightarrow> None
         | Some (Inl e) \<Rightarrow> Some (Inl e)
         | Some (Inr lhs1) \<Rightarrow>
             (case pd_walk_up (Suc fuel) pdt rhs lhs1 of
                None \<Rightarrow> None
              | Some (Inl e) \<Rightarrow> Some (Inl e)
              | Some (Inr rhs1) \<Rightarrow> pd_compute_intersect fuel pdt lhs1 rhs1)))"

text \<open>
  The first \<^verbatim>\<open>foreach_out_edge\<close> loop of \<^verbatim>\<open>pd_compute\<close>: the first user with a record
  that is defined.
\<close>

fun pd_find_idom :: "pd_tree \<Rightarrow> nat list \<Rightarrow> nat option" where
  "pd_find_idom pdt [] = None"
| "pd_find_idom pdt (src # srcs) =
     (case phase_get_irn_data pdt src of
        None \<Rightarrow> pd_find_idom pdt srcs
      | Some pd_src \<Rightarrow> if defined pd_src then Some src else pd_find_idom pdt srcs)"

text \<open>The second loop: intersect the candidate with every other defined user.\<close>

fun pd_intersect_all :: "nat \<Rightarrow> pd_tree \<Rightarrow> nat list \<Rightarrow> nat \<Rightarrow> (error + nat) option" where
  "pd_intersect_all fuel pdt [] pd_idom = Some (Inr pd_idom)"
| "pd_intersect_all fuel pdt (src # srcs) pd_idom =
     (case phase_get_irn_data pdt src of
        None \<Rightarrow> pd_intersect_all fuel pdt srcs pd_idom
      | Some pd_src \<Rightarrow>
          if src \<noteq> pd_idom \<and> defined pd_src
          then (case pd_compute_intersect fuel pdt src pd_idom of
                  None \<Rightarrow> None
                | Some (Inl e) \<Rightarrow> Some (Inl e)
                | Some (Inr i) \<Rightarrow> pd_intersect_all fuel pdt srcs i)
          else pd_intersect_all fuel pdt srcs pd_idom)"

text \<open>
  The body of \<^verbatim>\<open>pd_compute\<close> for a node other than the root, in its two parts.
  \<open>pd_compute_idom\<close> is "find new\_idom" and "for all others": the first loop, the
  assertion \<^verbatim>\<open>assert(pd_idom)\<close> and the second loop. \<open>pd_link\<close> is "link new\_idom to the
  node": it returns the tree and \<^verbatim>\<open>changed\<close>.
\<close>

definition pd_compute_idom :: "nat \<Rightarrow> ir_graph \<Rightarrow> nat \<Rightarrow> pd_tree \<Rightarrow> (error + nat) option" where
  "pd_compute_idom fuel g n pdt =
     (case pd_find_idom pdt (outs g n) of
        None \<Rightarrow> Some (Inl AssertFail)
      | Some first \<Rightarrow> pd_intersect_all fuel pdt (outs g n) first)"

definition pd_link :: "nat \<Rightarrow> nat \<Rightarrow> pd_tree \<Rightarrow> error + pd_tree \<times> bool" where
  "pd_link pd_idom n pdt =
     (case phase pdt n of
        None \<Rightarrow> Inl NullDeref
      | Some pdn \<Rightarrow>
          if parent pdn \<noteq> Some pd_idom
          then (case pd_set_parent pd_idom n pdt of
                  Inl e \<Rightarrow> Inl e
                | Inr pdt1 \<Rightarrow>
                    (case phase pdt1 n of
                       None \<Rightarrow> Inl NullDeref
                     | Some pdn1 \<Rightarrow> Inr (put_node n (pdn1\<lparr>defined := True\<rparr>) pdt1, True)))
          else Inr (pdt, False))"

definition pd_compute_node ::
    "nat \<Rightarrow> ir_graph \<Rightarrow> nat \<Rightarrow> pd_tree \<Rightarrow> (error + pd_tree \<times> bool) option" where
  "pd_compute_node fuel g n pdt =
     (case phase_get_irn_data pdt n of
        None \<Rightarrow> Some (Inl AssertFail)
      | Some pdn \<Rightarrow>
          (case pd_compute_idom fuel g n pdt of
             None \<Rightarrow> None
           | Some (Inl e) \<Rightarrow> Some (Inl e)
           | Some (Inr pd_idom) \<Rightarrow> Some (pd_link pd_idom n pdt)))"

text \<open>\<^verbatim>\<open>irn != pdt->root->irn\<close>\<close>

definition is_root_irn :: "pd_tree \<Rightarrow> nat \<Rightarrow> error + bool" where
  "is_root_irn pdt n =
     (case phase pdt (root pdt) of
        None \<Rightarrow> Inl NullDeref
      | Some r \<Rightarrow> Inr (irn r = Some n))"

fun pd_compute ::
    "nat \<Rightarrow> ir_graph \<Rightarrow> nat \<Rightarrow> pd_tree \<times> nat set \<Rightarrow> (error + (pd_tree \<times> nat set) \<times> bool) option"
  and pd_compute_deps ::
    "nat \<Rightarrow> ir_graph \<Rightarrow> nat list \<Rightarrow> pd_tree \<times> nat set \<Rightarrow> (error + (pd_tree \<times> nat set) \<times> bool) option"
where
  "pd_compute 0 g n s = None"
| "pd_compute (Suc fuel) g n (pdt, visited) =
     (if n \<in> visited then Some (Inr ((pdt, visited), False))
      else
        (case is_root_irn pdt n of
           Inl e \<Rightarrow> Some (Inl e)
         | Inr is_root \<Rightarrow>
             (case (if is_root then Some (Inr (pdt, False)) else pd_compute_node fuel g n pdt) of
                None \<Rightarrow> None
              | Some (Inl e) \<Rightarrow> Some (Inl e)
              | Some (Inr (pdt1, changed)) \<Rightarrow>
                  (case pd_compute_deps fuel g (ins g n) (pdt1, insert n visited) of
                     None \<Rightarrow> None
                   | Some (Inl e) \<Rightarrow> Some (Inl e)
                   | Some (Inr (s1, changed1)) \<Rightarrow> Some (Inr (s1, changed \<or> changed1))))))"
| "pd_compute_deps fuel g [] s = Some (Inr (s, False))"
| "pd_compute_deps fuel g (dep # deps) s =
     (case pd_compute fuel g dep s of
        None \<Rightarrow> None
      | Some (Inl e) \<Rightarrow> Some (Inl e)
      | Some (Inr (s1, changed)) \<Rightarrow>
          (case pd_compute_deps fuel g deps s1 of
             None \<Rightarrow> None
           | Some (Inl e) \<Rightarrow> Some (Inl e)
           | Some (Inr (s2, changed1)) \<Rightarrow> Some (Inr (s2, changed \<or> changed1))))"

text \<open>
  The \<^verbatim>\<open>do { ... } while (changed)\<close> loop of \<^verbatim>\<open>pd_init\<close>: each pass starts with no node
  visited (\<^verbatim>\<open>inc_irg_visited\<close>). The first argument bounds the number of passes.
\<close>

fun pd_fixpoint :: "nat \<Rightarrow> nat \<Rightarrow> ir_graph \<Rightarrow> nat \<Rightarrow> pd_tree \<Rightarrow> (error + pd_tree) option" where
  "pd_fixpoint 0 fuel g ret pdt = None"
| "pd_fixpoint (Suc passes) fuel g ret pdt =
     (case pd_compute fuel g ret (pdt, {}) of
        None \<Rightarrow> None
      | Some (Inl e) \<Rightarrow> Some (Inl e)
      | Some (Inr ((pdt1, visited), changed)) \<Rightarrow>
          if changed then pd_fixpoint passes fuel g ret pdt1 else Some (Inr pdt1))"

text \<open>
  \<^verbatim>\<open>pd_init\<close>. \<open>pd_init_root\<close> sets up the root node. The allocation of the tree, the
  obstack and the activation of the out edges have no counterpart here: \<open>outs\<close> is the
  activated edge set.
\<close>

definition pd_init_root :: "nat \<Rightarrow> pd_tree" where
  "pd_init_root ret =
     (case phase_get_or_set_irn_data \<lparr>root = ret, phase = Map.empty\<rparr> ret of
        (r, tree) \<Rightarrow> put_node ret (r\<lparr>irn := Some ret, defined := True\<rparr>) tree)"

definition pd_init :: "nat \<Rightarrow> ir_graph \<Rightarrow> (error + pd_tree) option" where
  "pd_init fuel irg =
     (let ret = end_cfgpred irg in
      if \<not> is_Return irg ret then Some (Inl AssertFail)
      else
        (case pd_compute_indices_post fuel irg ret (pd_init_root ret, {}) 0 of
           None \<Rightarrow> None
         | Some ((tree1, visited), counter) \<Rightarrow>
             (case pd_fixpoint fuel fuel irg ret tree1 of
                None \<Rightarrow> None
              | Some (Inl e) \<Rightarrow> Some (Inl e)
              | Some (Inr tree2) \<Rightarrow>
                  (case pd_compute_indices_dom fuel (root tree2) tree2 0 of
                     None \<Rightarrow> None
                   | Some (Inl e) \<Rightarrow> Some (Inl e)
                   | Some (Inr (tree3, counter3)) \<Rightarrow> Some (Inr tree3)))))"

subsection \<open>The solver without assertions\<close>

text \<open>
  \<^verbatim>\<open>assert\<close> is the macro of \<^verbatim>\<open>assert.h\<close>: when \<^verbatim>\<open>NDEBUG\<close> is defined it expands to nothing.
  The definitions above are the source with the assertions in force; the following ones
  are the same source with \<^verbatim>\<open>NDEBUG\<close> defined. Where an assertion would have failed the
  program goes on: after \<^verbatim>\<open>assert(it)\<close> in \<^verbatim>\<open>pd_set_parent\<close>, \<^verbatim>\<open>plist_erase\<close> reads through
  the \<^verbatim>\<open>NULL\<close> element; after \<^verbatim>\<open>assert(pdn)\<close> in \<^verbatim>\<open>pd_compute\<close>, \<^verbatim>\<open>pdn->parent\<close> reads
  through \<^verbatim>\<open>NULL\<close> once the two loops are done; after \<^verbatim>\<open>assert(pd_idom)\<close> the candidate
  \<^verbatim>\<open>pd_idom\<close> is \<^verbatim>\<open>NULL\<close> (here \<open>None\<close>) in the second loop and in the comparison
  \<^verbatim>\<open>pdn->parent != pd_idom\<close>; \<^verbatim>\<open>pd_compute_intersect(pd_src, NULL)\<close> and
  \<^verbatim>\<open>pd_set_parent(NULL, pdn)\<close> read through \<^verbatim>\<open>NULL\<close>.
\<close>

definition pd_set_parent_ndebug :: "nat \<Rightarrow> nat \<Rightarrow> pd_tree \<Rightarrow> error + pd_tree" where
  "pd_set_parent_ndebug par child pdt =
     (case pd_set_parent par child pdt of
        Inl e \<Rightarrow> Inl NullDeref
      | Inr pdt1 \<Rightarrow> Inr pdt1)"

fun pd_intersect_all_ndebug ::
    "nat \<Rightarrow> pd_tree \<Rightarrow> nat list \<Rightarrow> nat option \<Rightarrow> (error + nat option) option" where
  "pd_intersect_all_ndebug fuel pdt [] pd_idom = Some (Inr pd_idom)"
| "pd_intersect_all_ndebug fuel pdt (src # srcs) pd_idom =
     (case phase_get_irn_data pdt src of
        None \<Rightarrow> pd_intersect_all_ndebug fuel pdt srcs pd_idom
      | Some pd_src \<Rightarrow>
          if Some src \<noteq> pd_idom \<and> defined pd_src
          then (case pd_idom of
                  None \<Rightarrow> Some (Inl NullDeref)
                | Some i \<Rightarrow>
                    (case pd_compute_intersect fuel pdt src i of
                       None \<Rightarrow> None
                     | Some (Inl e) \<Rightarrow> Some (Inl e)
                     | Some (Inr j) \<Rightarrow> pd_intersect_all_ndebug fuel pdt srcs (Some j)))
          else pd_intersect_all_ndebug fuel pdt srcs pd_idom)"

definition pd_link_ndebug :: "nat option \<Rightarrow> nat \<Rightarrow> pd_tree \<Rightarrow> error + pd_tree \<times> bool" where
  "pd_link_ndebug pd_idom n pdt =
     (case phase pdt n of
        None \<Rightarrow> Inl NullDeref
      | Some pdn \<Rightarrow>
          if parent pdn \<noteq> pd_idom
          then (case pd_idom of
                  None \<Rightarrow> Inl NullDeref
                | Some i \<Rightarrow>
                    (case pd_set_parent_ndebug i n pdt of
                       Inl e \<Rightarrow> Inl e
                     | Inr pdt1 \<Rightarrow>
                         (case phase pdt1 n of
                            None \<Rightarrow> Inl NullDeref
                          | Some pdn1 \<Rightarrow>
                              Inr (put_node n (pdn1\<lparr>defined := True\<rparr>) pdt1, True))))
          else Inr (pdt, False))"

definition pd_compute_node_ndebug ::
    "nat \<Rightarrow> ir_graph \<Rightarrow> nat \<Rightarrow> pd_tree \<Rightarrow> (error + pd_tree \<times> bool) option" where
  "pd_compute_node_ndebug fuel g n pdt =
     (case pd_intersect_all_ndebug fuel pdt (outs g n) (pd_find_idom pdt (outs g n)) of
        None \<Rightarrow> None
      | Some (Inl e) \<Rightarrow> Some (Inl e)
      | Some (Inr pd_idom) \<Rightarrow> Some (pd_link_ndebug pd_idom n pdt))"

fun pd_compute_ndebug ::
    "nat \<Rightarrow> ir_graph \<Rightarrow> nat \<Rightarrow> pd_tree \<times> nat set \<Rightarrow> (error + (pd_tree \<times> nat set) \<times> bool) option"
  and pd_compute_deps_ndebug ::
    "nat \<Rightarrow> ir_graph \<Rightarrow> nat list \<Rightarrow> pd_tree \<times> nat set \<Rightarrow> (error + (pd_tree \<times> nat set) \<times> bool) option"
where
  "pd_compute_ndebug 0 g n s = None"
| "pd_compute_ndebug (Suc fuel) g n (pdt, visited) =
     (if n \<in> visited then Some (Inr ((pdt, visited), False))
      else
        (case is_root_irn pdt n of
           Inl e \<Rightarrow> Some (Inl e)
         | Inr is_root \<Rightarrow>
             (case (if is_root then Some (Inr (pdt, False))
                    else pd_compute_node_ndebug fuel g n pdt) of
                None \<Rightarrow> None
              | Some (Inl e) \<Rightarrow> Some (Inl e)
              | Some (Inr (pdt1, changed)) \<Rightarrow>
                  (case pd_compute_deps_ndebug fuel g (ins g n) (pdt1, insert n visited) of
                     None \<Rightarrow> None
                   | Some (Inl e) \<Rightarrow> Some (Inl e)
                   | Some (Inr (s1, changed1)) \<Rightarrow> Some (Inr (s1, changed \<or> changed1))))))"
| "pd_compute_deps_ndebug fuel g [] s = Some (Inr (s, False))"
| "pd_compute_deps_ndebug fuel g (dep # deps) s =
     (case pd_compute_ndebug fuel g dep s of
        None \<Rightarrow> None
      | Some (Inl e) \<Rightarrow> Some (Inl e)
      | Some (Inr (s1, changed)) \<Rightarrow>
          (case pd_compute_deps_ndebug fuel g deps s1 of
             None \<Rightarrow> None
           | Some (Inl e) \<Rightarrow> Some (Inl e)
           | Some (Inr (s2, changed1)) \<Rightarrow> Some (Inr (s2, changed \<or> changed1))))"

fun pd_fixpoint_ndebug ::
    "nat \<Rightarrow> nat \<Rightarrow> ir_graph \<Rightarrow> nat \<Rightarrow> pd_tree \<Rightarrow> (error + pd_tree) option" where
  "pd_fixpoint_ndebug 0 fuel g ret pdt = None"
| "pd_fixpoint_ndebug (Suc passes) fuel g ret pdt =
     (case pd_compute_ndebug fuel g ret (pdt, {}) of
        None \<Rightarrow> None
      | Some (Inl e) \<Rightarrow> Some (Inl e)
      | Some (Inr ((pdt1, visited), changed)) \<Rightarrow>
          if changed then pd_fixpoint_ndebug passes fuel g ret pdt1 else Some (Inr pdt1))"

subsection \<open>Queries\<close>

text \<open>\<^verbatim>\<open>pd_dominates\<close> has no assertion: it reads through both pointers.\<close>

definition pd_dominates :: "pd_tree \<Rightarrow> nat \<Rightarrow> nat \<Rightarrow> error + bool" where
  "pd_dominates pdt lhs rhs =
     (case phase_get_irn_data pdt lhs of
        None \<Rightarrow> Inl NullDeref
      | Some lhs_node \<Rightarrow>
          (case phase_get_irn_data pdt rhs of
             None \<Rightarrow> Inl NullDeref
           | Some rhs_node \<Rightarrow>
               Inr (index rhs_node \<ge> index lhs_node \<and> index rhs_node \<le> max_index lhs_node)))"

definition pd_get_parent :: "pd_tree \<Rightarrow> nat \<Rightarrow> error + nat option" where
  "pd_get_parent pdt n =
     (case phase_get_irn_data pdt n of
        None \<Rightarrow> Inl AssertFail
      | Some pdn \<Rightarrow>
          (case parent pdn of
             None \<Rightarrow> Inr None
           | Some p \<Rightarrow>
               (case phase pdt p of
                  None \<Rightarrow> Inl NullDeref
                | Some pp \<Rightarrow> Inr (irn pp))))"

definition pd_get_children_count :: "pd_tree \<Rightarrow> nat \<Rightarrow> error + int" where
  "pd_get_children_count pdt n =
     (case phase_get_irn_data pdt n of
        None \<Rightarrow> Inl AssertFail
      | Some pdn \<Rightarrow> Inr (int (length (children pdn))))"

text \<open>
  A \<^verbatim>\<open>pd_children_iter\<close> is a pointer to a list element, or \<^verbatim>\<open>NULL\<close>: here the list of
  the elements from that one on, empty for \<^verbatim>\<open>NULL\<close>.
\<close>

definition pd_children_iter_init :: "pd_tree \<Rightarrow> nat \<Rightarrow> error + nat list" where
  "pd_children_iter_init pdt n =
     (case phase_get_irn_data pdt n of
        None \<Rightarrow> Inl AssertFail
      | Some pdn \<Rightarrow> Inr (children pdn))"

text \<open>\<^verbatim>\<open>pd_children_iter_next\<close> returns the node and the advanced iterator.\<close>

definition pd_children_iter_next :: "pd_tree \<Rightarrow> nat list \<Rightarrow> error + nat option \<times> nat list" where
  "pd_children_iter_next pdt it =
     (case it of
        [] \<Rightarrow> Inr (None, [])
      | p # rest \<Rightarrow>
          (case phase pdt p of
             None \<Rightarrow> Inl NullDeref
           | Some pdn \<Rightarrow> Inr (irn pdn, rest)))"

definition pd_get_root :: "pd_tree \<Rightarrow> error + nat option" where
  "pd_get_root pdt =
     (case phase pdt (root pdt) of
        None \<Rightarrow> Inl NullDeref
      | Some r \<Rightarrow> Inr (irn r))"

subsection \<open>Iterating over the children\<close>

text \<open>
  A client loop: \<open>k\<close> calls of \<^verbatim>\<open>pd_children_iter_next\<close> on the same iterator, with the
  nodes returned (in call order) and the iterator left behind.
\<close>

fun pd_children_iter_take ::
    "nat \<Rightarrow> pd_tree \<Rightarrow> nat list \<Rightarrow> error + nat option list \<times> nat list" where
  "pd_children_iter_take 0 pdt it = Inr ([], it)"
| "pd_children_iter_take (Suc k) pdt it =
     (case pd_children_iter_next pdt it of
        Inl e \<Rightarrow> Inl e
      | Inr (r, it1) \<Rightarrow>
          (case pd_children_iter_take k pdt it1 of
             Inl e \<Rightarrow> Inl e
           | Inr (rs, it2) \<Rightarrow> Inr (r # rs, it2)))"

subsection \<open>Example graphs\<close>

text \<open>
  The diamond: the sink \<open>R = 0\<close> uses \<open>A = 1\<close> and \<open>B = 2\<close>, which both use \<open>C = 3\<close>. The
  argument is the order in which the out edges of \<open>C\<close> are enumerated.
\<close>

definition diamond_graph :: "nat list \<Rightarrow> ir_graph" where
  "diamond_graph us =
     \<lparr>end_cfgpred = 0, is_Return = (\<lambda>n. n = 0),
      ins = (\<lambda>n. if n = 0 then [1, 2] else if n = 1 then [3] else if n = 2 then [3] else []),
      outs = (\<lambda>n. if n = 1 then [0] else if n = 2 then [0] else if n = 3 then us else [])\<rparr>"

text \<open>What the specification expects of the tree of the diamond.\<close>

definition diamond_expected :: "pd_tree \<Rightarrow> bool" where
  "diamond_expected t \<longleftrightarrow>
     pd_get_parent t 1 = Inr (Some 0) \<and> pd_get_parent t 2 = Inr (Some 0) \<and>
     pd_get_parent t 3 = Inr (Some 0) \<and> pd_get_parent t 0 = Inr None \<and>
     pd_children_iter_init t 0 = Inr [1, 2, 3] \<and>
     pd_get_children_count t 1 = Inr 0 \<and> pd_get_children_count t 2 = Inr 0 \<and>
     pd_get_children_count t 3 = Inr 0 \<and>
     pd_dominates t 0 3 = Inr True \<and> pd_dominates t 1 3 = Inr False \<and>
     pd_dominates t 3 1 = Inr False"

text \<open>A graph of one node: the sink has no operands and no users.\<close>

definition single_graph :: ir_graph where
  "single_graph = \<lparr>end_cfgpred = 0, is_Return = (\<lambda>n. n = 0), ins = (\<lambda>n. []), outs = (\<lambda>n. [])\<rparr>"

text \<open>
  A graph whose out edges do not mirror the operands: node \<open>2\<close> is listed as the only user
  of node \<open>1\<close>, and the sink reaches \<open>1\<close> before \<open>2\<close>. \<open>undefined_use_tree\<close> is the tree
  after the post-order pass on it.
\<close>

definition undefined_use_graph :: ir_graph where
  "undefined_use_graph =
     \<lparr>end_cfgpred = 0, is_Return = (\<lambda>n. n = 0),
      ins = (\<lambda>n. if n = 0 then [1, 2] else []),
      outs = (\<lambda>n. if n = 1 then [2] else if n = 2 then [0] else [])\<rparr>"

definition undefined_use_tree :: pd_tree where
  "undefined_use_tree =
     put_node 2 (pd_init_node\<lparr>irn := Some 2, index := 1\<rparr>)
       (put_node 1 (pd_init_node\<lparr>irn := Some 1\<rparr>)
          (put_node 0 (pd_init_node\<lparr>irn := Some 0, defined := True, index := 2\<rparr>)
             \<lparr>root = 0, phase = Map.empty\<rparr>))"

subsection \<open>Reachable nodes, acyclic graphs\<close>

text \<open>
  \<open>dep_rel\<close> is the operand relation, \<open>reachable\<close> the nodes the sink reaches through
  operands. A graph is acyclic (below the sink) when a rank decreases along every operand
  edge of a reachable node. \<open>index_of\<close> reads the \<^verbatim>\<open>index\<close> field of the record of a node.
\<close>

definition dep_rel :: "ir_graph \<Rightarrow> (nat \<times> nat) set" where
  "dep_rel g = {(n, d). d \<in> set (ins g n)}"

definition reachable :: "ir_graph \<Rightarrow> nat set" where
  "reachable g = (dep_rel g)\<^sup>* `` {end_cfgpred g}"

definition acyclic_deps :: "ir_graph \<Rightarrow> (nat \<Rightarrow> nat) \<Rightarrow> bool" where
  "acyclic_deps g rk \<longleftrightarrow> (\<forall>n \<in> reachable g. \<forall>d \<in> set (ins g n). rk d < rk n)"

definition index_of :: "pd_tree \<Rightarrow> nat \<Rightarrow> int" where
  "index_of t x = (case phase t x of Some d \<Rightarrow> index d | None \<Rightarrow> 0)"

text \<open>
  The invariant of the post-order pass. \<open>V\<close> is the visited set and \<open>K\<close> the nodes whose
  call is still open, so \<open>V - K\<close> are the nodes that have received their index; \<open>c\<close> is
  the counter.
\<close>

definition post_inv :: "ir_graph \<Rightarrow> nat set \<Rightarrow> pd_tree \<Rightarrow> nat set \<Rightarrow> int \<Rightarrow> bool" where
  "post_inv g K t V c \<longleftrightarrow>
     finite V \<and> K \<subseteq> V \<and> V \<subseteq> reachable g \<and> root t = end_cfgpred g \<and> 0 \<le> c \<and>
     dom (phase t) = (V - K) \<union> {end_cfgpred g} \<and>
     (\<forall>x d. phase t x = Some d \<longrightarrow>
        irn d = Some x \<and> children d = [] \<and> parent d = None \<and> (defined d \<longleftrightarrow> x = end_cfgpred g)) \<and>
     index_of t ` (V - K) = {0..<c} \<and> inj_on (index_of t) (V - K) \<and>
     (\<forall>x \<in> V - K. \<forall>d \<in> set (ins g x). d \<in> V - K \<and> index_of t d < index_of t x)"

subsection \<open>The invariant of the solver\<close>

text \<open>The fields of the record of a node, with the values of a zeroed record when there is none.\<close>

definition parent_of :: "pd_tree \<Rightarrow> nat \<Rightarrow> nat option" where
  "parent_of t x = (case phase t x of Some d \<Rightarrow> parent d | None \<Rightarrow> None)"

definition defined_in :: "pd_tree \<Rightarrow> nat \<Rightarrow> bool" where
  "defined_in t x = (case phase t x of Some d \<Rightarrow> defined d | None \<Rightarrow> False)"

definition children_of :: "pd_tree \<Rightarrow> nat \<Rightarrow> nat list" where
  "children_of t x = (case phase t x of Some d \<Rightarrow> children d | None \<Rightarrow> [])"

text \<open>
  The out edges mirror the operands: a reachable node is a user of each of its operands,
  and every reachable user of a reachable node has it as an operand. (Users that the
  sink does not reach have no record and are skipped by the solver.)
\<close>

definition mirrored_edges :: "ir_graph \<Rightarrow> bool" where
  "mirrored_edges g \<longleftrightarrow>
     (\<forall>n \<in> reachable g.
        (\<forall>d \<in> set (ins g n). n \<in> set (outs g d)) \<and>
        (\<forall>u \<in> set (outs g n). u \<in> reachable g \<longrightarrow> n \<in> set (ins g u)))"

text \<open>
  The shape of the tree while the solver runs. The records are those of the reachable
  nodes; the post-order indices are distinct, they are the numbers below the number of
  nodes, and they decrease along operands; the root is
  defined and has no parent; a node that is not yet defined has no parent; a defined
  node other than the root has a parent that is defined and has a larger index (so the
  chain of parents is finite, has no cycle and ends at the root); and the list of children
  of a node holds, once each, exactly the nodes whose parent it is.
\<close>

definition solver_inv :: "ir_graph \<Rightarrow> pd_tree \<Rightarrow> bool" where
  "solver_inv g t \<longleftrightarrow>
     root t = end_cfgpred g \<and> dom (phase t) = reachable g \<and> finite (reachable g) \<and>
     (\<forall>x d. phase t x = Some d \<longrightarrow> irn d = Some x) \<and>
     inj_on (index_of t) (reachable g) \<and>
     (\<forall>x \<in> reachable g. \<forall>d \<in> set (ins g x). index_of t d < index_of t x) \<and>
     defined_in t (end_cfgpred g) \<and> parent_of t (end_cfgpred g) = None \<and>
     (\<forall>x \<in> reachable g. \<not> defined_in t x \<longrightarrow> parent_of t x = None) \<and>
     (\<forall>x \<in> reachable g. defined_in t x \<and> x \<noteq> end_cfgpred g \<longrightarrow>
        (\<exists>p \<in> reachable g. parent_of t x = Some p \<and> defined_in t p \<and> index_of t x < index_of t p)) \<and>
     (\<forall>x \<in> reachable g. distinct (children_of t x) \<and>
        set (children_of t x) = {c \<in> reachable g. parent_of t c = Some x}) \<and>
     index_of t ` reachable g = {0..<int (card (reachable g))}"

text \<open>
  A node is settled when processing it would not change the tree: the candidate the two
  loops compute is its parent. \<open>settled_from i\<close>: every node other than the root with
  index at least \<open>i\<close> is settled. Two trees agree from \<open>i\<close> on when they have the same
  records and indices and the nodes with index at least \<open>i\<close> have the same parent and
  the same \<^verbatim>\<open>defined\<close> flag.
\<close>

definition settled :: "ir_graph \<Rightarrow> pd_tree \<Rightarrow> nat \<Rightarrow> bool" where
  "settled g t x \<longleftrightarrow> (\<exists>n c. pd_compute_idom n g x t = Some (Inr c) \<and> parent_of t x = Some c)"

definition settled_from :: "ir_graph \<Rightarrow> pd_tree \<Rightarrow> int \<Rightarrow> bool" where
  "settled_from g t i \<longleftrightarrow>
     (\<forall>y \<in> reachable g. y \<noteq> end_cfgpred g \<and> i \<le> index_of t y \<longrightarrow> settled g t y)"

definition agree_from :: "int \<Rightarrow> pd_tree \<Rightarrow> pd_tree \<Rightarrow> bool" where
  "agree_from i t t' \<longleftrightarrow>
     dom (phase t') = dom (phase t) \<and> index_of t' = index_of t \<and>
     (\<forall>y. i \<le> index_of t y \<longrightarrow>
        parent_of t' y = parent_of t y \<and> defined_in t' y = defined_in t y)"

text \<open>
  The invariant of one pass of the solver, for a level \<open>L\<close>: the shape of the tree; the
  visited set \<open>V\<close> and the open calls \<open>K\<close>; every node above the level is settled, and so
  is the node at the level once it is visited; the operands of the nodes whose call has
  returned are visited; every visited node is defined.
\<close>

definition pass_inv :: "ir_graph \<Rightarrow> int \<Rightarrow> nat set \<Rightarrow> pd_tree \<Rightarrow> nat set \<Rightarrow> bool" where
  "pass_inv g L K t V \<longleftrightarrow>
     solver_inv g t \<and> K \<subseteq> V \<and> V \<subseteq> reachable g \<and> settled_from g t (L + 1) \<and>
     (\<forall>y \<in> V. y \<noteq> end_cfgpred g \<and> index_of t y = L \<longrightarrow> settled g t y) \<and>
     (\<forall>y \<in> V - K. set (ins g y) \<subseteq> V) \<and>
     (\<forall>y \<in> V. defined_in t y)"

subsection \<open>The tree as a relation\<close>

text \<open>
  \<open>child_rel\<close> relates a node to the nodes in its list of children; the descendants of a
  node are the nodes it reaches through children, itself included. \<open>max_index_of\<close> reads
  the \<^verbatim>\<open>max_index\<close> field. \<open>same_links\<close>: two trees differ in \<^verbatim>\<open>index\<close> and \<^verbatim>\<open>max_index\<close>
  fields only.
\<close>

definition child_rel :: "pd_tree \<Rightarrow> (nat \<times> nat) set" where
  "child_rel t = {(x, c). c \<in> set (children_of t x)}"

definition descendants :: "pd_tree \<Rightarrow> nat \<Rightarrow> nat set" where
  "descendants t v = (child_rel t)\<^sup>* `` {v}"

definition max_index_of :: "pd_tree \<Rightarrow> nat \<Rightarrow> int" where
  "max_index_of t x = (case phase t x of Some d \<Rightarrow> max_index d | None \<Rightarrow> 0)"

definition strip_idx :: "pd_node \<Rightarrow> pd_node" where
  "strip_idx d = d\<lparr>index := 0, max_index := 0\<rparr>"

definition same_links :: "pd_tree \<Rightarrow> pd_tree \<Rightarrow> bool" where
  "same_links t t' \<longleftrightarrow>
     root t' = root t \<and> (\<forall>y. map_option strip_idx (phase t' y) = map_option strip_idx (phase t y))"

text \<open>
  The shape the tree indexer relies on, for a rank \<open>\<rho>\<close>: a child has a record, its parent
  field points back, its rank is smaller, and no list of children repeats a node.
\<close>

definition tree_shape :: "(nat \<Rightarrow> nat) \<Rightarrow> pd_tree \<Rightarrow> bool" where
  "tree_shape \<rho> t \<longleftrightarrow>
     (\<forall>x. distinct (children_of t x) \<and>
        (\<forall>c \<in> set (children_of t x). phase t c \<noteq> None \<and> parent_of t c = Some x \<and> \<rho> c < \<rho> x))"

text \<open>
  The intervals of the nodes in a set are nested: the interval of a node is not empty and
  contains the interval of each of its descendants.
\<close>

definition nested :: "pd_tree \<Rightarrow> nat set \<Rightarrow> bool" where
  "nested t S \<longleftrightarrow>
     (\<forall>y \<in> S. index_of t y \<le> max_index_of t y \<and>
        (\<forall>z \<in> descendants t y. index_of t y \<le> index_of t z \<and> index_of t z \<le> max_index_of t z \<and>
           max_index_of t z \<le> max_index_of t y))"

text \<open>
  What a call of the tree indexer on a node (or on a list of siblings) with descendants
  \<open>D\<close> achieves, from tree \<open>t\<close> and counter \<open>c\<close> to tree \<open>t'\<close> and counter \<open>c'\<close>: links are kept,
  records outside \<open>D\<close> are untouched, the intervals of the nodes in \<open>D\<close> lie between \<open>c\<close>
  and \<open>c'\<close> and are nested.
\<close>

definition dom_post :: "pd_tree \<Rightarrow> nat set \<Rightarrow> int \<Rightarrow> pd_tree \<Rightarrow> int \<Rightarrow> bool" where
  "dom_post t D c t' c' \<longleftrightarrow>
     same_links t t' \<and> (\<forall>y. y \<notin> D \<longrightarrow> phase t' y = phase t y) \<and> c \<le> c' \<and>
     (\<forall>y \<in> D. c \<le> index_of t' y \<and> max_index_of t' y \<le> c') \<and> nested t' D"


text \<open>
  The numbers a preorder walk of the tree gives. \<open>sibling_intervals t c qs m\<close>: walking the
  siblings \<open>qs\<close> after the number \<open>c\<close> has been used, each sibling carries the number after
  the last one used, its \<^verbatim>\<open>max_index\<close> is the last number used below it, and \<open>m\<close> is the last
  number used in all. \<open>preorder_at\<close>: the children of a node carry the numbers after the
  node's own, and the node's \<^verbatim>\<open>max_index\<close> is the last number used in its subtree (its own
  \<^verbatim>\<open>index\<close> when it has no child). \<open>dom_exact\<close>: all nodes of a set are numbered so, and a
  node of the set whose index lies in the interval of another is a descendant of it.
\<close>

fun sibling_intervals :: "pd_tree \<Rightarrow> int \<Rightarrow> nat list \<Rightarrow> int \<Rightarrow> bool" where
  "sibling_intervals t c [] m \<longleftrightarrow> m = c"
| "sibling_intervals t c (q # qs) m \<longleftrightarrow>
     index_of t q = c + 1 \<and> sibling_intervals t (max_index_of t q) qs m"

definition preorder_at :: "pd_tree \<Rightarrow> nat \<Rightarrow> bool" where
  "preorder_at t x \<longleftrightarrow> sibling_intervals t (index_of t x) (children_of t x) (max_index_of t x)"

definition dom_exact :: "pd_tree \<Rightarrow> nat set \<Rightarrow> bool" where
  "dom_exact t D \<longleftrightarrow>
     (\<forall>y \<in> D. preorder_at t y) \<and>
     (\<forall>y \<in> D. \<forall>z \<in> D. index_of t y \<le> index_of t z \<and> index_of t z \<le> max_index_of t y \<longrightarrow>
        z \<in> descendants t y)"

text \<open>
  The graphs the construction is specified for: the node found at the end block is a
  \<^verbatim>\<open>Return\<close>, the graph is acyclic below it (with rank \<open>rk\<close>) and the out edges mirror the
  operands.
\<close>

definition peg_wf :: "ir_graph \<Rightarrow> (nat \<Rightarrow> nat) \<Rightarrow> bool" where
  "peg_wf g rk \<longleftrightarrow> is_Return g (end_cfgpred g) \<and> acyclic_deps g rk \<and> mirrored_edges g"

text \<open>
  The trees the solver can reach: the tree after the post-order pass, and every tree that
  processing a node other than the root (in any order) makes of a reachable tree. The
  trees between two reparenting steps of a pass are among them.
\<close>

inductive_set solver_states :: "ir_graph \<Rightarrow> pd_tree set" for g :: ir_graph where
  init: "pd_compute_indices_post n g (end_cfgpred g) (pd_init_root (end_cfgpred g), {}) 0
           = Some ((t, V), c) \<Longrightarrow> t \<in> solver_states g"
| step: "t \<in> solver_states g \<Longrightarrow> is_root_irn t x = Inr False \<Longrightarrow>
         pd_compute_node n g x t = Some (Inr (t', ch)) \<Longrightarrow> t' \<in> solver_states g"
section \<open>More fuel gives the same result\<close>

lemma post_deps_mono_step:
  assumes "\<And>x s c r. pd_compute_indices_post n g x s c = Some r \<Longrightarrow>
             pd_compute_indices_post (n + k) g x s c = Some r"
  shows "pd_compute_indices_post_deps n g xs s c = Some r \<Longrightarrow>
         pd_compute_indices_post_deps (n + k) g xs s c = Some r"
proof (induction xs arbitrary: s c)
  case Nil
  then show ?case by simp
next
  case (Cons d ds)
  from Cons.prems obtain s1 c1 where
    p: "pd_compute_indices_post n g d s c = Some (s1, c1)"
    and q: "pd_compute_indices_post_deps n g ds s1 c1 = Some r"
    by (cases "pd_compute_indices_post n g d s c") auto
  from assms [OF p] Cons.IH [OF q] show ?case by simp
qed

lemma post_mono:
  "pd_compute_indices_post n g x s c = Some r \<Longrightarrow>
   pd_compute_indices_post (n + k) g x s c = Some r"
proof (induction n arbitrary: x s c r)
  case 0
  then show ?case by simp
next
  case (Suc n)
  obtain pdt V where s: "s = (pdt, V)" by (cases s)
  show ?case
  proof (cases "x \<in> V")
    case True
    with Suc.prems s show ?thesis by simp
  next
    case False
    with Suc.prems s obtain r1 where
      d: "pd_compute_indices_post_deps n g (ins g x) (pdt, insert x V) c = Some r1"
      by (auto split: option.splits)
    have "pd_compute_indices_post_deps (n + k) g (ins g x) (pdt, insert x V) c = Some r1"
      using post_deps_mono_step [OF Suc.IH d] .
    with Suc.prems s False d show ?thesis by simp
  qed
qed

lemma post_deps_mono:
  "pd_compute_indices_post_deps n g xs s c = Some r \<Longrightarrow>
   pd_compute_indices_post_deps (n + k) g xs s c = Some r"
  by (rule post_deps_mono_step [OF post_mono])

lemma dom_list_mono_step:
  assumes "\<And>p t c r. pd_compute_indices_dom n p t c = Some r \<Longrightarrow>
             pd_compute_indices_dom (n + k) p t c = Some r"
  shows "pd_compute_indices_dom_list n ps t c = Some r \<Longrightarrow>
         pd_compute_indices_dom_list (n + k) ps t c = Some r"
proof (induction ps arbitrary: t c)
  case Nil
  then show ?case by simp
next
  case (Cons d ds)
  from Cons.prems obtain r1 where p: "pd_compute_indices_dom n d t (c + 1) = Some r1"
    by (cases "pd_compute_indices_dom n d t (c + 1)") auto
  note p' = assms [OF p]
  show ?case
  proof (cases r1)
    case (Inl e)
    with Cons.prems p p' show ?thesis by auto
  next
    case (Inr v)
    obtain t1 c1 where v: "v = (t1, c1)" by (cases v)
    with Cons.prems p Inr have q: "pd_compute_indices_dom_list n ds t1 c1 = Some r" by simp
    from Cons.IH [OF q] p' Inr v show ?thesis by simp
  qed
qed

lemma dom_mono:
  "pd_compute_indices_dom n p t c = Some r \<Longrightarrow> pd_compute_indices_dom (n + k) p t c = Some r"
proof (induction n arbitrary: p t c r)
  case 0
  then show ?case by simp
next
  case (Suc n)
  show ?case
  proof (cases "phase t p")
    case None
    with Suc.prems show ?thesis by simp
  next
    case (Some pdn)
    with Suc.prems obtain r1 where
      d: "pd_compute_indices_dom_list n (children pdn) (put_node p (pdn\<lparr>index := c\<rparr>) t) c = Some r1"
      by (auto split: option.splits)
    have "pd_compute_indices_dom_list (n + k) (children pdn) (put_node p (pdn\<lparr>index := c\<rparr>) t) c = Some r1"
      using dom_list_mono_step [OF Suc.IH d] .
    with Suc.prems Some d show ?thesis by simp
  qed
qed

lemma walk_mono:
  "pd_walk_up n t a b = Some r \<Longrightarrow> pd_walk_up (n + k) t a b = Some r"
  by (induction n t a b rule: pd_walk_up.induct) (auto split: option.splits if_splits)

lemma intersect_mono:
  "pd_compute_intersect n t a b = Some r \<Longrightarrow> pd_compute_intersect (n + k) t a b = Some r"
proof (induction n arbitrary: a b)
  case 0
  then show ?case by simp
next
  case (Suc n)
  show ?case
  proof (cases "a = b")
    case True
    with Suc.prems show ?thesis by simp
  next
    case False
    with Suc.prems obtain r1 where w1: "pd_walk_up (Suc n) t a b = Some r1"
      by (auto split: option.splits)
    have w1': "pd_walk_up (Suc (n + k)) t a b = Some r1"
      using walk_mono [OF w1, of k] by simp
    show ?thesis
    proof (cases r1)
      case (Inl e)
      with Suc.prems False w1 w1' show ?thesis by (auto simp del: pd_walk_up.simps)
    next
      case (Inr a1)
      with Suc.prems False w1 obtain r2 where w2: "pd_walk_up (Suc n) t b a1 = Some r2"
        by (auto simp del: pd_walk_up.simps split: option.splits)
      have w2': "pd_walk_up (Suc (n + k)) t b a1 = Some r2"
        using walk_mono [OF w2, of k] by simp
      show ?thesis
      proof (cases r2)
        case (Inl e)
        with Suc.prems False w1 w1' w2 w2' \<open>r1 = Inr a1\<close> show ?thesis
          by (auto simp del: pd_walk_up.simps)
      next
        case (Inr b1)
        with Suc.prems False w1 w2 \<open>r1 = Inr a1\<close>
        have "pd_compute_intersect n t a1 b1 = Some r" by (simp del: pd_walk_up.simps)
        then have "pd_compute_intersect (n + k) t a1 b1 = Some r" by (rule Suc.IH)
        with False w1' w2' Inr \<open>r1 = Inr a1\<close> show ?thesis by (simp del: pd_walk_up.simps)
      qed
    qed
  qed
qed

lemma intersect_all_mono:
  "pd_intersect_all n t srcs i = Some r \<Longrightarrow> pd_intersect_all (n + k) t srcs i = Some r"
proof (induction srcs arbitrary: i)
  case Nil
  then show ?case by simp
next
  case (Cons s srcs)
  show ?case
  proof (cases "phase_get_irn_data t s")
    case None
    with Cons show ?thesis by simp
  next
    case (Some d)
    show ?thesis
    proof (cases "s \<noteq> i \<and> defined d")
      case False
      with Cons Some show ?thesis by auto
    next
      case True
      with Cons.prems Some obtain r1 where p: "pd_compute_intersect n t s i = Some r1"
        by (cases "pd_compute_intersect n t s i") auto
      note p' = intersect_mono [OF p, of k]
      show ?thesis
      proof (cases r1)
        case (Inl e)
        with Cons.prems Some True p p' show ?thesis by auto
      next
        case (Inr i1)
        with Cons.prems Some True p have "pd_intersect_all n t srcs i1 = Some r" by simp
        from Cons.IH [OF this] Some True p' Inr show ?thesis by simp
      qed
    qed
  qed
qed

lemma compute_idom_mono:
  "pd_compute_idom n g x t = Some r \<Longrightarrow> pd_compute_idom (n + k) g x t = Some r"
  unfolding pd_compute_idom_def
  by (cases "pd_find_idom t (outs g x)") (simp_all add: intersect_all_mono)

lemma compute_node_mono:
  "pd_compute_node n g x t = Some r \<Longrightarrow> pd_compute_node (n + k) g x t = Some r"
proof -
  assume a: "pd_compute_node n g x t = Some r"
  show ?thesis
  proof (cases "phase_get_irn_data t x")
    case None
    with a show ?thesis by (simp add: pd_compute_node_def)
  next
    case (Some pdn)
    with a obtain r1 where p: "pd_compute_idom n g x t = Some r1"
      by (cases "pd_compute_idom n g x t") (auto simp: pd_compute_node_def)
    note p' = compute_idom_mono [OF p, of k]
    from a Some p p' show ?thesis by (simp add: pd_compute_node_def)
  qed
qed

lemma compute_deps_mono_step:
  assumes "\<And>x s r. pd_compute n g x s = Some r \<Longrightarrow> pd_compute (n + k) g x s = Some r"
  shows "pd_compute_deps n g xs s = Some r \<Longrightarrow> pd_compute_deps (n + k) g xs s = Some r"
proof (induction xs arbitrary: s r)
  case Nil
  then show ?case by simp
next
  case (Cons d ds)
  from Cons.prems obtain r1 where c1: "pd_compute n g d s = Some r1"
    by (cases "pd_compute n g d s") auto
  have c1': "pd_compute (n + k) g d s = Some r1" using assms [OF c1] .
  show ?case
  proof (cases r1)
    case (Inl e)
    with Cons.prems c1 c1' show ?thesis by auto
  next
    case (Inr v)
    obtain s1 ch where v: "v = (s1, ch)" by (cases v)
    with Cons.prems c1 Inr obtain r2 where c2: "pd_compute_deps n g ds s1 = Some r2"
      by (cases "pd_compute_deps n g ds s1") auto
    have "pd_compute_deps (n + k) g ds s1 = Some r2" using Cons.IH [OF c2] .
    with Cons.prems c1 c1' c2 Inr v show ?thesis by simp
  qed
qed

lemma compute_mono:
  "pd_compute n g x s = Some r \<Longrightarrow> pd_compute (n + k) g x s = Some r"
proof (induction n arbitrary: x s r)
  case 0
  then show ?case by simp
next
  case (Suc n)
  obtain pdt V where s: "s = (pdt, V)" by (cases s)
  show ?case
  proof (cases "x \<in> V")
    case True
    with Suc.prems s show ?thesis by simp
  next
    case False
    show ?thesis
    proof (cases "is_root_irn pdt x")
      case (Inl e)
      with Suc.prems s False show ?thesis by simp
    next
      case (Inr isr)
      define body where "body m = (if isr then Some (Inr (pdt, False)) else pd_compute_node m g x pdt)" for m
      from Suc.prems s False Inr obtain r1 where b: "body n = Some r1"
        by (auto simp: body_def split: option.splits)
      have b': "body (n + k) = Some r1"
        using b compute_node_mono [of n g x pdt r1 k] by (auto simp: body_def)
      show ?thesis
      proof (cases r1)
        case (Inl e)
        with Suc.prems s False Inr b b' show ?thesis by (simp add: body_def)
      next
        case (Inr v)
        obtain pdt1 ch where v: "v = (pdt1, ch)" by (cases v)
        from Suc.prems s False \<open>is_root_irn pdt x = Inr isr\<close> b Inr v obtain r2 where
          d: "pd_compute_deps n g (ins g x) (pdt1, insert x V) = Some r2"
          by (auto simp: body_def split: option.splits)
        have d': "pd_compute_deps (n + k) g (ins g x) (pdt1, insert x V) = Some r2"
          using compute_deps_mono_step [OF Suc.IH d] .
        from Suc.prems s False \<open>is_root_irn pdt x = Inr isr\<close> b b' Inr v d d'
        show ?thesis by (simp add: body_def)
      qed
    qed
  qed
qed

lemma fixpoint_mono:
  "pd_fixpoint p n g x t = Some r \<Longrightarrow> pd_fixpoint (p + j) (n + k) g x t = Some r"
proof (induction p arbitrary: t)
  case 0
  then show ?case by simp
next
  case (Suc p)
  from Suc.prems obtain r1 where c: "pd_compute n g x (t, {}) = Some r1"
    by (cases "pd_compute n g x (t, {})") auto
  note c' = compute_mono [OF c, of k]
  show ?case
  proof (cases r1)
    case (Inl e)
    with Suc.prems c c' show ?thesis by auto
  next
    case (Inr v)
    obtain t1 V ch where v: "v = ((t1, V), ch)" by (cases v) auto
    show ?thesis
    proof (cases ch)
      case True
      with Suc.prems c Inr v have "pd_fixpoint p n g x t1 = Some r" by simp
      from Suc.IH [OF this] c' Inr v True show ?thesis by simp
    next
      case False
      with Suc.prems c c' Inr v show ?thesis by simp
    qed
  qed
qed

lemma pd_init_mono:
  "pd_init n g = Some r \<Longrightarrow> pd_init (n + k) g = Some r"
proof -
  assume a: "pd_init n g = Some r"
  show ?thesis
  proof (cases "is_Return g (end_cfgpred g)")
    case False
    with a show ?thesis by (simp add: pd_init_def)
  next
    case True
    with a obtain t1 V c where
      p: "pd_compute_indices_post n g (end_cfgpred g) (pd_init_root (end_cfgpred g), {}) 0 = Some ((t1, V), c)"
      by (cases "pd_compute_indices_post n g (end_cfgpred g) (pd_init_root (end_cfgpred g), {}) 0")
         (auto simp: pd_init_def)
    note p' = post_mono [OF p, of k]
    from a True p obtain r1 where f: "pd_fixpoint n n g (end_cfgpred g) t1 = Some r1"
      by (cases "pd_fixpoint n n g (end_cfgpred g) t1") (auto simp: pd_init_def)
    note f' = fixpoint_mono [OF f, of k k]
    show ?thesis
    proof (cases r1)
      case (Inl e)
      with a True p p' f f' show ?thesis by (auto simp: pd_init_def)
    next
      case (Inr t2)
      with a True p f obtain r2 where d: "pd_compute_indices_dom n (root t2) t2 0 = Some r2"
        by (cases "pd_compute_indices_dom n (root t2) t2 0") (auto simp: pd_init_def)
      note d' = dom_mono [OF d, of k]
      from a True p p' f f' Inr d d' show ?thesis by (simp add: pd_init_def)
    qed
  qed
qed

section \<open>The example graphs, evaluated\<close>

lemma case_result_ex:
  "(case r of Some (Inr t) \<Rightarrow> P t | _ \<Rightarrow> False) \<Longrightarrow> \<exists>t. r = Some (Inr t) \<and> P t"
  by (auto split: option.splits sum.splits)

lemma diamond_eval_12:
  "case pd_init 10 (diamond_graph [1, 2]) of Some (Inr t) \<Rightarrow> diamond_expected t | _ \<Rightarrow> False"
  by code_simp

lemma diamond_eval_21:
  "case pd_init 10 (diamond_graph [2, 1]) of Some (Inr t) \<Rightarrow> diamond_expected t | _ \<Rightarrow> False"
  by code_simp

lemma diamond_children_12:
  "case pd_init 10 (diamond_graph [1, 2]) of
     Some (Inr t) \<Rightarrow>
       (case phase t 0 of
          Some pdn \<Rightarrow> children pdn = [1, 2, 3] \<and>
            list_all (\<lambda>c. map_option irn (phase t c) = Some (Some c)) (children pdn)
        | None \<Rightarrow> False)
   | _ \<Rightarrow> False"
  by code_simp

lemma undefined_use_tree_post:
  "pd_compute_indices_post 10 undefined_use_graph 0 (pd_init_root 0, {}) 0
     = Some ((undefined_use_tree, {0, 1, 2}), 3)"
  apply (simp add: undefined_use_graph_def undefined_use_tree_def pd_init_root_def
      pd_init_node_def put_node_def phase_get_or_set_irn_data_def numeral_nat)
  apply (auto simp: fun_eq_iff)
  done

lemma undefined_use_init:
  "pd_init 10 undefined_use_graph = Some (Inl AssertFail)"
proof -
  have "case pd_init 10 undefined_use_graph of Some (Inl AssertFail) \<Rightarrow> True | _ \<Rightarrow> False"
    by code_simp
  then show ?thesis
    by (auto split: option.splits sum.splits error.splits)
qed


lemma pd_children_iter_take_exhausted:
  "pd_children_iter_take k pdt [] = Inr (replicate k None, [])"
  by (induction k) (simp_all add: pd_children_iter_next_def)

lemma pd_children_iter_take_all:
  assumes "\<forall>c \<in> set cs. \<exists>d. phase pdt c = Some d \<and> irn d = Some c"
  shows "pd_children_iter_take (length cs + k) pdt cs = Inr (map Some cs @ replicate k None, [])"
  using assms
proof (induction cs)
  case Nil
  then show ?case by (simp add: pd_children_iter_take_exhausted)
next
  case (Cons c cs)
  then show ?case by (auto simp: pd_children_iter_next_def)
qed

section \<open>The post-order pass\<close>

lemma post_invD:
  assumes "post_inv g K t V c"
  shows "finite V" "K \<subseteq> V" "V \<subseteq> reachable g" "root t = end_cfgpred g" "0 \<le> c"
    "dom (phase t) = (V - K) \<union> {end_cfgpred g}"
    "\<forall>x d. phase t x = Some d \<longrightarrow>
        irn d = Some x \<and> children d = [] \<and> parent d = None \<and> (defined d \<longleftrightarrow> x = end_cfgpred g)"
    "index_of t ` (V - K) = {0..<c}" "inj_on (index_of t) (V - K)"
    "\<forall>x \<in> V - K. \<forall>d \<in> set (ins g x). d \<in> V - K \<and> index_of t d < index_of t x"
  using assms unfolding post_inv_def by - (elim conjE, assumption)+

lemma reachable_root: "end_cfgpred g \<in> reachable g"
  by (simp add: reachable_def)

lemma reachable_step: "x \<in> reachable g \<Longrightarrow> d \<in> set (ins g x) \<Longrightarrow> d \<in> reachable g"
  unfolding reachable_def dep_rel_def
  by (auto intro: rtrancl_into_rtrancl)

lemma reachable_least:
  assumes "end_cfgpred g \<in> F" and "\<forall>x \<in> F. set (ins g x) \<subseteq> F"
  shows "reachable g \<subseteq> F"
proof
  fix y assume "y \<in> reachable g"
  then have "(end_cfgpred g, y) \<in> (dep_rel g)\<^sup>*" by (simp add: reachable_def)
  then show "y \<in> F"
  proof (induction rule: rtrancl_induct)
    case base
    show ?case by (rule assms(1))
  next
    case (step y z)
    then show ?case using assms(2) by (auto simp: dep_rel_def)
  qed
qed

lemma get_or_set_phase:
  "phase_get_or_set_irn_data t x = (pdn, t2) \<Longrightarrow>
   phase t2 = (phase t)(x \<mapsto> pdn) \<and> root t2 = root t \<and>
   pdn = (case phase t x of Some d \<Rightarrow> d | None \<Rightarrow> pd_init_node)"
  by (auto simp: phase_get_or_set_irn_data_def fun_eq_iff split: option.splits)

lemma put_node_simps:
  "phase (put_node x d t) = (phase t)(x \<mapsto> d)" "root (put_node x d t) = root t"
  by (simp_all add: put_node_def)

lemma pd_init_root_simps:
  "root (pd_init_root r) = r"
  "phase (pd_init_root r) = [r \<mapsto> pd_init_node\<lparr>irn := Some r, defined := True\<rparr>]"
  by (simp_all add: pd_init_root_def phase_get_or_set_irn_data_def put_node_def)

lemma post_inv_init:
  "post_inv g {} (pd_init_root (end_cfgpred g)) {} 0"
  unfolding post_inv_def
  by (intro conjI) (simp_all add: pd_init_root_simps pd_init_node_def)

lemma post_inv_finish:
  assumes inv: "post_inv g (insert x K) t1 V1 c1"
    and xK: "x \<notin> K" and xV: "x \<in> V1"
    and deps: "set (ins g x) \<subseteq> V1 - insert x K"
    and gs: "phase_get_or_set_irn_data t1 x = (pdn, t2)"
  shows "post_inv g K (put_node x (pdn\<lparr>irn := Some x, index := c1\<rparr>) t2) V1 (c1 + 1)"
proof -
  define r where "r = end_cfgpred g"
  define F where "F = V1 - insert x K"
  define t' where "t' = put_node x (pdn\<lparr>irn := Some x, index := c1\<rparr>) t2"
  have F': "V1 - K = insert x F" using xK xV by (auto simp: F_def)
  have xF: "x \<notin> F" by (simp add: F_def)
  from get_or_set_phase [OF gs]
  have ph: "phase t' = (phase t1)(x \<mapsto> pdn\<lparr>irn := Some x, index := c1\<rparr>)"
    and rt: "root t' = root t1"
    and pdn: "pdn = (case phase t1 x of Some d \<Rightarrow> d | None \<Rightarrow> pd_init_node)"
    by (simp_all add: t'_def put_node_simps)
  note d = post_invD [OF inv, folded F_def r_def]
  note fin = d(1) and KV = d(2) and Vr = d(3) and root1 = d(4) and c0 = d(5) and dom1 = d(6)
    and rec1 = d(7) and img1 = d(8) and inj1 = d(9) and ord1 = d(10)
  have idx_x: "index_of t' x = c1" by (simp add: index_of_def ph)
  have idx_o: "\<And>y. y \<noteq> x \<Longrightarrow> index_of t' y = index_of t1 y" by (simp add: index_of_def ph)
  have idx_F: "index_of t' y = index_of t1 y" if "y \<in> F" for y
  proof -
    from that xF have "y \<noteq> x" by auto
    then show ?thesis by (rule idx_o)
  qed
  have a1: "K \<subseteq> V1" using KV by simp
  have a2: "dom (phase t') = (V1 - K) \<union> {r}" by (simp add: ph F' dom1 insert_commute)
  have pdn_rec: "children pdn = [] \<and> parent pdn = None \<and> (defined pdn \<longleftrightarrow> x = r)"
  proof (cases "phase t1 x")
    case None
    then have "x \<notin> dom (phase t1)" by (simp add: domIff)
    then have "x \<noteq> r" unfolding dom1 by simp
    with None pdn show ?thesis by (simp add: pd_init_node_def)
  next
    case (Some d)
    with pdn have "pdn = d" by simp
    with Some rec1 show ?thesis by simp
  qed
  have a3: "\<forall>y d. phase t' y = Some d \<longrightarrow>
        irn d = Some y \<and> children d = [] \<and> parent d = None \<and> (defined d \<longleftrightarrow> y = r)"
  proof (intro allI impI)
    fix y d assume yd: "phase t' y = Some d"
    show "irn d = Some y \<and> children d = [] \<and> parent d = None \<and> (defined d \<longleftrightarrow> y = r)"
    proof (cases "y = x")
      case True
      with yd ph have "d = pdn\<lparr>irn := Some x, index := c1\<rparr>" by simp
      with pdn_rec True show ?thesis by simp
    next
      case False
      with yd ph have "phase t1 y = Some d" by simp
      with rec1 show ?thesis by simp
    qed
  qed
  have "index_of t' ` F = index_of t1 ` F"
    by (rule image_cong) (simp_all add: idx_F)
  then have "index_of t' ` (insert x F) = insert c1 {0..<c1}"
    by (simp add: idx_x img1)
  also have "\<dots> = {0..<c1 + 1}" using c0 by auto
  finally have a4: "index_of t' ` (V1 - K) = {0..<c1 + 1}" by (simp add: F')
  have c1_fresh: "c1 \<notin> index_of t1 ` F" using img1 by simp
  have a5: "inj_on (index_of t') (V1 - K)"
    unfolding F'
  proof (rule inj_onI)
    fix a b assume ab: "a \<in> insert x F" "b \<in> insert x F" "index_of t' a = index_of t' b"
    show "a = b"
    proof (cases "a = x")
      case True
      show ?thesis
      proof (cases "b = x")
        case True
        with \<open>a = x\<close> show ?thesis by simp
      next
        case False
        with ab have "b \<in> F" by simp
        with ab True idx_x idx_F c1_fresh show ?thesis by force
      qed
    next
      case False
      with ab have aF: "a \<in> F" by simp
      show ?thesis
      proof (cases "b = x")
        case True
        with ab aF idx_x idx_F c1_fresh show ?thesis by force
      next
        case False
        with ab have "b \<in> F" by simp
        with aF ab idx_F inj1 show ?thesis by (auto dest: inj_onD)
      qed
    qed
  qed
  have lt_c1: "\<And>y. y \<in> F \<Longrightarrow> index_of t1 y < c1"
  proof -
    fix y assume "y \<in> F"
    then have "index_of t1 y \<in> {0..<c1}" using img1 by blast
    then show "index_of t1 y < c1" by simp
  qed
  have a6: "\<forall>y \<in> V1 - K. \<forall>d \<in> set (ins g y). d \<in> V1 - K \<and> index_of t' d < index_of t' y"
    unfolding F'
  proof (intro ballI)
    fix y d assume y: "y \<in> insert x F" and d: "d \<in> set (ins g y)"
    show "d \<in> insert x F \<and> index_of t' d < index_of t' y"
    proof (cases "y = x")
      case True
      with d deps have dF: "d \<in> F" by (auto simp: F_def)
      with lt_c1 idx_F idx_x True show ?thesis by simp
    next
      case False
      with y have yF: "y \<in> F" by simp
      with ord1 d have "d \<in> F" and "index_of t1 d < index_of t1 y" by blast+
      with yF idx_F show ?thesis by simp
    qed
  qed
  have a0: "root t' = r" using rt root1 by simp
  have c0': "0 \<le> c1 + 1" using c0 by simp
  show ?thesis
    unfolding post_inv_def t'_def [symmetric] r_def [symmetric]
    by (intro conjI fin a1 Vr a0 c0' a2 a3 a4 a5 a6)
qed

lemma post_inv_visited:
  fixes rk :: "nat \<Rightarrow> nat"
  assumes "\<forall>k \<in> K. rk x < rk k" and "x \<in> V"
  shows "x \<in> V - K"
  using assms by (metis DiffI less_irrefl)


lemma post_inv_push:
  assumes "post_inv g K t V c" and "x \<notin> V" and "x \<in> reachable g"
  shows "post_inv g (insert x K) t (insert x V) c"
proof -
  note d = post_invD [OF assms(1)]
  have e: "insert x V - insert x K = V - K" using assms(2) by auto
  show ?thesis
    unfolding post_inv_def e
  proof (intro conjI)
    show "finite (insert x V)" using d(1) by simp
    show "insert x K \<subseteq> insert x V" using d(2) by auto
    show "insert x V \<subseteq> reachable g" using d(3) assms(3) by simp
  qed (rule d)+
qed

lemma post_deps_total:
  assumes node: "\<And>d t V c. d \<in> set ds \<Longrightarrow> post_inv g K0 t V c \<Longrightarrow>
      \<exists>n t' V' c'. (\<forall>j. pd_compute_indices_post (n + j) g d (t, V) c = Some ((t', V'), c')) \<and>
        post_inv g K0 t' V' c' \<and> V \<subseteq> V' \<and> d \<in> V'"
  shows "post_inv g K0 t V c \<Longrightarrow>
      \<exists>n t' V' c'. (\<forall>j. pd_compute_indices_post_deps (n + j) g ds (t, V) c = Some ((t', V'), c')) \<and>
        post_inv g K0 t' V' c' \<and> V \<subseteq> V' \<and> set ds \<subseteq> V'"
  using node
proof (induction ds arbitrary: t V c)
  case Nil
  then show ?case by simp
next
  case (Cons d ds)
  from Cons.prems(2) [of d t V c] Cons.prems(1) obtain n1 t1 V1 c1 where
    r1: "\<And>j. pd_compute_indices_post (n1 + j) g d (t, V) c = Some ((t1, V1), c1)"
    and i1: "post_inv g K0 t1 V1 c1" and s1: "V \<subseteq> V1" and d1: "d \<in> V1"
    by auto
  have "\<exists>n t' V' c'. (\<forall>j. pd_compute_indices_post_deps (n + j) g ds (t1, V1) c1 = Some ((t', V'), c')) \<and>
        post_inv g K0 t' V' c' \<and> V1 \<subseteq> V' \<and> set ds \<subseteq> V'"
    by (rule Cons.IH [OF i1]) (rule Cons.prems(2), simp_all)
  then obtain n2 t2 V2 c2 where
    r2: "\<And>j. pd_compute_indices_post_deps (n2 + j) g ds (t1, V1) c1 = Some ((t2, V2), c2)"
    and i2: "post_inv g K0 t2 V2 c2" and s2: "V1 \<subseteq> V2" and d2: "set ds \<subseteq> V2"
    by auto
  have "pd_compute_indices_post_deps (n1 + n2 + j) g (d # ds) (t, V) c = Some ((t2, V2), c2)" for j
  proof -
    have a: "pd_compute_indices_post (n1 + n2 + j) g d (t, V) c = Some ((t1, V1), c1)"
      using r1 [of "n2 + j"] by (simp add: add.assoc)
    have b: "pd_compute_indices_post_deps (n1 + n2 + j) g ds (t1, V1) c1 = Some ((t2, V2), c2)"
      using r2 [of "n1 + j"] by (simp add: ac_simps)
    show ?thesis by (simp add: a b)
  qed
  moreover have "V \<subseteq> V2" using s1 s2 by blast
  moreover have "set (d # ds) \<subseteq> V2" using d1 s2 d2 by auto
  ultimately show ?case using i2 by blast
qed

lemma post_total:
  fixes rk :: "nat \<Rightarrow> nat"
  assumes dag: "acyclic_deps g rk"
  shows "x \<in> reachable g \<Longrightarrow> post_inv g K t V c \<Longrightarrow> \<forall>k \<in> K. rk x < rk k \<Longrightarrow>
      \<exists>n t' V' c'. (\<forall>j. pd_compute_indices_post (n + j) g x (t, V) c = Some ((t', V'), c')) \<and>
        post_inv g K t' V' c' \<and> V \<subseteq> V' \<and> x \<in> V'"
proof (induction "rk x" arbitrary: x K t V c rule: less_induct)
  case less
  show ?case
  proof (cases "x \<in> V")
    case True
    have "pd_compute_indices_post (1 + j) g x (t, V) c = Some ((t, V), c)" for j
      using True by simp
    with less.prems(2) True show ?thesis by blast
  next
    case False
    note d = post_invD [OF less.prems(2)]
    from False d(2) have xK: "x \<notin> K" by auto
    have push: "post_inv g (insert x K) t (insert x V) c"
      by (rule post_inv_push [OF less.prems(2) False less.prems(1)])
    have rkd: "rk d < rk x" if "d \<in> set (ins g x)" for d
      using dag less.prems(1) that unfolding acyclic_deps_def by blast
    have "\<exists>n t' V' c'.
        (\<forall>j. pd_compute_indices_post_deps (n + j) g (ins g x) (t, insert x V) c = Some ((t', V'), c')) \<and>
        post_inv g (insert x K) t' V' c' \<and> insert x V \<subseteq> V' \<and> set (ins g x) \<subseteq> V'"
    proof (rule post_deps_total [OF _ push])
      fix d t0 V0 c0
      assume dd: "d \<in> set (ins g x)" and i0: "post_inv g (insert x K) t0 V0 c0"
      have a: "rk d < rk x" by (rule rkd [OF dd])
      have b: "d \<in> reachable g" by (rule reachable_step [OF less.prems(1) dd])
      have c: "\<forall>k \<in> insert x K. rk d < rk k"
        using rkd [OF dd] less.prems(3) by auto
      show "\<exists>n t' V' c'.
          (\<forall>j. pd_compute_indices_post (n + j) g d (t0, V0) c0 = Some ((t', V'), c')) \<and>
          post_inv g (insert x K) t' V' c' \<and> V0 \<subseteq> V' \<and> d \<in> V'"
        by (rule less.hyps [OF a b i0 c])
    qed
    then obtain n t1 V1 c1 where
      r1: "\<And>j. pd_compute_indices_post_deps (n + j) g (ins g x) (t, insert x V) c = Some ((t1, V1), c1)"
      and i1: "post_inv g (insert x K) t1 V1 c1" and s1: "insert x V \<subseteq> V1"
      and d1: "set (ins g x) \<subseteq> V1"
      by auto
    obtain pdn t2 where gs: "phase_get_or_set_irn_data t1 x = (pdn, t2)"
      by (cases "phase_get_or_set_irn_data t1 x")
    define t' where "t' = put_node x (pdn\<lparr>irn := Some x, index := c1\<rparr>) t2"
    have dK: "set (ins g x) \<subseteq> V1 - insert x K"
    proof
      fix d assume dd: "d \<in> set (ins g x)"
      have "d \<noteq> x" using rkd [OF dd] by auto
      moreover have "d \<notin> K" using rkd [OF dd] less.prems(3) by force
      ultimately show "d \<in> V1 - insert x K" using d1 dd by auto
    qed
    have xV1: "x \<in> V1" using s1 by simp
    have fin: "post_inv g K t' V1 (c1 + 1)"
      unfolding t'_def by (rule post_inv_finish [OF i1 xK xV1 dK gs])
    have "pd_compute_indices_post (Suc n + j) g x (t, V) c = Some ((t', V1), c1 + 1)" for j
      using False r1 [of j] gs by (simp add: t'_def)
    moreover have "V \<subseteq> V1" using s1 by auto
    ultimately show ?thesis using fin xV1 by blast
  qed
qed


lemma index_le_root:
  assumes ord: "\<forall>x \<in> reachable g. \<forall>d \<in> set (ins g x). index_of t d < index_of t x"
    and x: "x \<in> reachable g"
  shows "index_of t x \<le> index_of t (end_cfgpred g)"
proof -
  from x have "(end_cfgpred g, x) \<in> (dep_rel g)\<^sup>*" by (simp add: reachable_def)
  then show ?thesis
  proof (induction rule: rtrancl_induct)
    case base
    show ?case by simp
  next
    case (step y z)
    from step(1) have "y \<in> reachable g" by (simp add: reachable_def)
    moreover from step(2) have "z \<in> set (ins g y)" by (simp add: dep_rel_def)
    ultimately have "index_of t z < index_of t y" using ord by blast
    with step(3) show ?case by simp
  qed
qed

lemma post_root_total:
  fixes rk :: "nat \<Rightarrow> nat"
  assumes dag: "acyclic_deps g rk"
  shows "\<exists>n t c.
     (\<forall>j. pd_compute_indices_post (n + j) g (end_cfgpred g) (pd_init_root (end_cfgpred g), {}) 0
            = Some ((t, reachable g), c)) \<and>
     post_inv g {} t (reachable g) c"
proof -
  have "\<forall>k \<in> {}. rk (end_cfgpred g) < rk k" by simp
  from post_total [OF dag reachable_root post_inv_init this]
  obtain n t V c where
    r: "\<And>j. pd_compute_indices_post (n + j) g (end_cfgpred g) (pd_init_root (end_cfgpred g), {}) 0
            = Some ((t, V), c)"
    and i: "post_inv g {} t V c" and rV: "end_cfgpred g \<in> V"
    by blast
  note d = post_invD [OF i]
  have "\<forall>x \<in> V. set (ins g x) \<subseteq> V" using d(10) by auto
  with rV have "reachable g \<subseteq> V" by (rule reachable_least)
  with d(3) have "V = reachable g" by auto
  with r i show ?thesis by blast
qed

lemma diamond_reachable: "reachable (diamond_graph us) = {0, 1, 2, 3}"
proof
  show "reachable (diamond_graph us) \<subseteq> {0, 1, 2, 3}"
    by (rule reachable_least) (simp_all add: diamond_graph_def)
  have r0: "0 \<in> reachable (diamond_graph us)"
    using reachable_root [of "diamond_graph us"] by (simp add: diamond_graph_def)
  have r1: "1 \<in> reachable (diamond_graph us)"
    by (rule reachable_step [OF r0]) (simp add: diamond_graph_def)
  have r2: "2 \<in> reachable (diamond_graph us)"
    by (rule reachable_step [OF r0]) (simp add: diamond_graph_def)
  have r3: "3 \<in> reachable (diamond_graph us)"
    by (rule reachable_step [OF r1]) (simp add: diamond_graph_def)
  from r0 r1 r2 r3 show "{0, 1, 2, 3} \<subseteq> reachable (diamond_graph us)" by simp
qed

lemma diamond_acyclic: "acyclic_deps (diamond_graph us) (\<lambda>n. 3 - n)"
  unfolding acyclic_deps_def diamond_reachable
  by (simp add: diamond_graph_def)

section \<open>The solver keeps the shape of the tree\<close>

lemma solver_invD:
  assumes "solver_inv g t"
  shows "root t = end_cfgpred g" "dom (phase t) = reachable g" "finite (reachable g)"
    "\<forall>x d. phase t x = Some d \<longrightarrow> irn d = Some x"
    "inj_on (index_of t) (reachable g)"
    "\<forall>x \<in> reachable g. \<forall>d \<in> set (ins g x). index_of t d < index_of t x"
    "defined_in t (end_cfgpred g)" "parent_of t (end_cfgpred g) = None"
    "\<forall>x \<in> reachable g. \<not> defined_in t x \<longrightarrow> parent_of t x = None"
    "\<forall>x \<in> reachable g. defined_in t x \<and> x \<noteq> end_cfgpred g \<longrightarrow>
        (\<exists>p \<in> reachable g. parent_of t x = Some p \<and> defined_in t p \<and> index_of t x < index_of t p)"
    "\<forall>x \<in> reachable g. distinct (children_of t x) \<and>
        set (children_of t x) = {c \<in> reachable g. parent_of t c = Some x}"
    "index_of t ` reachable g = {0..<int (card (reachable g))}"
  using assms unfolding solver_inv_def by - (elim conjE, assumption)+

lemma solver_inv_phase:
  assumes "solver_inv g t" and "x \<in> reachable g"
  obtains d where "phase t x = Some d" "index d = index_of t x" "parent d = parent_of t x"
    "defined d = defined_in t x" "children d = children_of t x"
proof -
  from solver_invD(2) [OF assms(1)] assms(2) obtain d where "phase t x = Some d" by blast
  then show thesis
    by (intro that [of d]) (simp_all add: index_of_def parent_of_def defined_in_def children_of_def)
qed

lemma solver_inv_parent:
  assumes "solver_inv g t" and "x \<in> reachable g" and "defined_in t x" and "x \<noteq> end_cfgpred g"
  obtains p where "p \<in> reachable g" "parent_of t x = Some p" "defined_in t p"
    "index_of t x < index_of t p"
  using solver_invD(10) [OF assms(1)] assms(2,3,4) by blast

lemma solver_inv_le_root:
  assumes "solver_inv g t" and "x \<in> reachable g"
  shows "index_of t x \<le> index_of t (end_cfgpred g)"
  by (rule index_le_root [OF solver_invD(6) [OF assms(1)] assms(2)])

lemma walk_up_total:
  assumes inv: "solver_inv g t"
  shows "a \<in> reachable g \<Longrightarrow> defined_in t a \<Longrightarrow> b \<in> reachable g \<Longrightarrow>
     \<exists>n a'. (\<forall>j. pd_walk_up (n + j) t a b = Some (Inr a')) \<and> a' \<in> reachable g \<and>
       defined_in t a' \<and> index_of t a \<le> index_of t a' \<and> index_of t b \<le> index_of t a' \<and>
       (index_of t b \<le> index_of t a \<longrightarrow> a' = a)"
proof (induction "nat (index_of t (end_cfgpred g) - index_of t a)" arbitrary: a rule: less_induct)
  case less
  from solver_inv_phase [OF inv less.prems(1)] obtain da where
    da: "phase t a = Some da" "index da = index_of t a" "parent da = parent_of t a" by blast
  from solver_inv_phase [OF inv less.prems(3)] obtain db where
    db: "phase t b = Some db" "index db = index_of t b" by blast
  show ?case
  proof (cases "index_of t a < index_of t b")
    case False
    have "pd_walk_up (1 + j) t a b = Some (Inr a)" for j
      using False da db by simp
    with False less.prems show ?thesis by (intro exI [of _ 1] exI [of _ a]) simp
  next
    case True
    have "index_of t b \<le> index_of t (end_cfgpred g)"
      by (rule solver_inv_le_root [OF inv less.prems(3)])
    with True have ar: "a \<noteq> end_cfgpred g" by auto
    from solver_inv_parent [OF inv less.prems(1,2) ar] obtain p where
      p: "p \<in> reachable g" "parent_of t a = Some p" "defined_in t p"
        "index_of t a < index_of t p" by blast
    have ple: "index_of t p \<le> index_of t (end_cfgpred g)"
      by (rule solver_inv_le_root [OF inv p(1)])
    have m: "nat (index_of t (end_cfgpred g) - index_of t p)
             < nat (index_of t (end_cfgpred g) - index_of t a)"
      using p(4) ple by simp
    from less.hyps [OF m p(1) p(3) less.prems(3)] obtain n a' where
      r: "\<And>j. pd_walk_up (n + j) t p b = Some (Inr a')"
      and a': "a' \<in> reachable g" "defined_in t a'" "index_of t p \<le> index_of t a'"
        "index_of t b \<le> index_of t a'"
      by blast
    have "pd_walk_up (Suc n + j) t a b = Some (Inr a')" for j
      using True da db p(2) r [of j] by simp
    moreover have "index_of t a \<le> index_of t a'" using p(4) a'(3) by simp
    moreover have "\<not> index_of t b \<le> index_of t a" using True by simp
    ultimately show ?thesis using a' by blast
  qed
qed

lemma intersect_total:
  assumes inv: "solver_inv g t"
  shows "a \<in> reachable g \<Longrightarrow> defined_in t a \<Longrightarrow> b \<in> reachable g \<Longrightarrow> defined_in t b \<Longrightarrow>
     \<exists>n c. (\<forall>j. pd_compute_intersect (n + j) t a b = Some (Inr c)) \<and> c \<in> reachable g \<and>
       defined_in t c \<and> index_of t a \<le> index_of t c \<and> index_of t b \<le> index_of t c"
proof (induction "nat (index_of t (end_cfgpred g) - index_of t a)
                    + nat (index_of t (end_cfgpred g) - index_of t b)"
       arbitrary: a b rule: less_induct)
  case less
  show ?case
  proof (cases "a = b")
    case True
    have "pd_compute_intersect (1 + j) t a b = Some (Inr a)" for j using True by simp
    with True less.prems show ?thesis by (intro exI [of _ 1] exI [of _ a]) simp
  next
    case False
    from walk_up_total [OF inv less.prems(1,2,3)] obtain n1 a1 where
      w1: "\<And>j. pd_walk_up (n1 + j) t a b = Some (Inr a1)"
      and a1: "a1 \<in> reachable g" "defined_in t a1" "index_of t a \<le> index_of t a1"
        "index_of t b \<le> index_of t a1" "index_of t b \<le> index_of t a \<longrightarrow> a1 = a"
      by blast
    from walk_up_total [OF inv less.prems(3,4) a1(1)] obtain n2 b1 where
      w2: "\<And>j. pd_walk_up (n2 + j) t b a1 = Some (Inr b1)"
      and b1: "b1 \<in> reachable g" "defined_in t b1" "index_of t b \<le> index_of t b1"
        "index_of t a1 \<le> index_of t b1" "index_of t a1 \<le> index_of t b \<longrightarrow> b1 = b"
      by blast
    have moved: "a1 \<noteq> a \<or> b1 \<noteq> b"
    proof (rule ccontr)
      assume "\<not> (a1 \<noteq> a \<or> b1 \<noteq> b)"
      then have e: "a1 = a" "b1 = b" by simp_all
      with a1(4) b1(4) have "index_of t a = index_of t b" by simp
      with solver_invD(5) [OF inv] less.prems(1,3) have "a = b" by (auto dest: inj_onD)
      with False show False by simp
    qed
    have strict: "index_of t a < index_of t a1 \<or> index_of t b < index_of t b1"
    proof -
      from moved show ?thesis
      proof
        assume "a1 \<noteq> a"
        with a1(3) a1(1) less.prems(1) solver_invD(5) [OF inv]
        have "index_of t a < index_of t a1"
          by (metis inj_onD order_le_less)
        then show ?thesis by simp
      next
        assume "b1 \<noteq> b"
        with b1(3) b1(1) less.prems(3) solver_invD(5) [OF inv]
        have "index_of t b < index_of t b1"
          by (metis inj_onD order_le_less)
        then show ?thesis by simp
      qed
    qed
    have la: "index_of t a1 \<le> index_of t (end_cfgpred g)"
      by (rule solver_inv_le_root [OF inv a1(1)])
    have lb: "index_of t b1 \<le> index_of t (end_cfgpred g)"
      by (rule solver_inv_le_root [OF inv b1(1)])
    have m: "nat (index_of t (end_cfgpred g) - index_of t a1)
               + nat (index_of t (end_cfgpred g) - index_of t b1)
             < nat (index_of t (end_cfgpred g) - index_of t a)
               + nat (index_of t (end_cfgpred g) - index_of t b)"
      using strict a1(3) b1(3) la lb by auto
    from less.hyps [OF m a1(1,2) b1(1,2)] obtain n3 c where
      r: "\<And>j. pd_compute_intersect (n3 + j) t a1 b1 = Some (Inr c)"
      and c: "c \<in> reachable g" "defined_in t c" "index_of t a1 \<le> index_of t c"
        "index_of t b1 \<le> index_of t c"
      by blast
    have "pd_compute_intersect (Suc (n1 + n2 + n3) + j) t a b = Some (Inr c)" for j
    proof -
      have e1: "pd_walk_up (Suc (n1 + n2 + n3 + j)) t a b = Some (Inr a1)"
        using w1 [of "Suc (n2 + n3 + j)"] by (simp add: ac_simps)
      have e2: "pd_walk_up (Suc (n1 + n2 + n3 + j)) t b a1 = Some (Inr b1)"
        using w2 [of "Suc (n1 + n3 + j)"] by (simp add: ac_simps)
      have e3: "pd_compute_intersect (n1 + n2 + n3 + j) t a1 b1 = Some (Inr c)"
        using r [of "n1 + n2 + j"] by (simp add: ac_simps)
      show ?thesis
        using False e1 e2 e3 by (simp del: pd_walk_up.simps)
    qed
    moreover have "index_of t a \<le> index_of t c" using a1(3) c(3) by simp
    moreover have "index_of t b \<le> index_of t c" using b1(3) c(4) by simp
    ultimately show ?thesis using c(1,2) by blast
  qed
qed

lemma accessor_simps:
  "phase t x = Some d \<Longrightarrow> index_of t x = index d"
  "phase t x = Some d \<Longrightarrow> parent_of t x = parent d"
  "phase t x = Some d \<Longrightarrow> defined_in t x = defined d"
  "phase t x = Some d \<Longrightarrow> children_of t x = children d"
  by (simp_all add: index_of_def parent_of_def defined_in_def children_of_def)

lemma solver_inv_parent_some:
  assumes inv: "solver_inv g t" and x: "x \<in> reachable g" and p: "parent_of t x = Some p"
  shows "p \<in> reachable g \<and> defined_in t p \<and> index_of t x < index_of t p \<and>
         x \<in> set (children_of t p) \<and> defined_in t x \<and> x \<noteq> end_cfgpred g"
proof -
  have dx: "defined_in t x" using solver_invD(9) [OF inv] x p by auto
  have xr: "x \<noteq> end_cfgpred g" using solver_invD(8) [OF inv] p by auto
  from solver_inv_parent [OF inv x dx xr] p obtain
    pr: "p \<in> reachable g" "defined_in t p" "index_of t x < index_of t p" by auto
  have "x \<in> set (children_of t p)" using solver_invD(11) [OF inv] pr(1) x p by auto
  with pr dx xr show ?thesis by simp
qed

text \<open>The effect of a link that changes the parent, field by field.\<close>

lemma pd_link_effect:
  assumes inv: "solver_inv g t" and x: "x \<in> reachable g" and i: "i \<in> reachable g"
    and xi: "x \<noteq> i" and ne: "parent_of t x \<noteq> Some i"
  shows "\<exists>t'. pd_link i x t = Inr (t', True) \<and>
     root t' = root t \<and> dom (phase t') = dom (phase t) \<and>
     (\<forall>y d. phase t' y = Some d \<longrightarrow> irn d = Some y) \<and>
     index_of t' = index_of t \<and>
     parent_of t' = (parent_of t)(x := Some i) \<and>
     defined_in t' = (defined_in t)(x := True) \<and>
     (\<forall>y. children_of t' y =
        (if y = i then children_of t i @ [x]
         else if parent_of t x = Some y then remove1 x (children_of t y)
         else children_of t y))"
proof -
  from solver_inv_phase [OF inv x] obtain dx where
    dx: "phase t x = Some dx" "parent dx = parent_of t x" by blast
  from solver_inv_phase [OF inv i] obtain di where
    di: "phase t i = Some di" by blast
  note irn = solver_invD(4) [OF inv]
  show ?thesis
  proof (cases "parent_of t x")
    case None
    define t' where "t' = put_node x (dx\<lparr>parent := Some i, defined := True\<rparr>)
        (put_node i (di\<lparr>children := children di @ [x]\<rparr>)
           (put_node x (dx\<lparr>parent := Some i\<rparr>) t))"
    have ph: "phase t' = (phase t)(x \<mapsto> dx\<lparr>parent := Some i, defined := True\<rparr>,
                                   i \<mapsto> di\<lparr>children := children di @ [x]\<rparr>)"
      using xi by (auto simp: t'_def put_node_def fun_eq_iff)
    have l: "pd_link i x t = Inr (t', True)"
      using None dx di xi ne
      by (simp add: pd_link_def pd_set_parent_def pd_detach_def pd_attach_def Let_def
          put_node_def t'_def)
    have r: "root t' = root t" by (simp add: t'_def put_node_def)
    have d: "dom (phase t') = dom (phase t)" using dx di by (auto simp: ph)
    have ir: "\<forall>y d. phase t' y = Some d \<longrightarrow> irn d = Some y"
      using irn dx di by (auto simp: ph split: if_splits)
    have ix: "index_of t' = index_of t"
      using dx di xi by (auto simp: fun_eq_iff index_of_def ph)
    have pa: "parent_of t' = (parent_of t)(x := Some i)"
      using dx di xi by (auto simp: fun_eq_iff parent_of_def ph)
    have de: "defined_in t' = (defined_in t)(x := True)"
      using dx di xi by (auto simp: fun_eq_iff defined_in_def ph)
    have ch: "\<forall>y. children_of t' y =
        (if y = i then children_of t i @ [x]
         else if parent_of t x = Some y then remove1 x (children_of t y)
         else children_of t y)"
      using dx di xi None by (auto simp: children_of_def ph)
    from l r d ir ix pa de ch show ?thesis by blast
  next
    case (Some op)
    from solver_inv_parent_some [OF inv x Some] have
      op: "op \<in> reachable g" "index_of t x < index_of t op" "x \<in> set (children_of t op)"
      by simp_all
    from solver_inv_phase [OF inv op(1)] obtain dop where
      dop: "phase t op = Some dop" "children dop = children_of t op" by blast
    have xop: "x \<noteq> op" using op(2) by auto
    have iop: "i \<noteq> op" using ne Some by auto
    define t' where "t' = put_node x (dx\<lparr>parent := Some i, defined := True\<rparr>)
        (put_node i (di\<lparr>children := children di @ [x]\<rparr>)
           (put_node x (dx\<lparr>parent := Some i\<rparr>)
              (put_node op (dop\<lparr>children := remove1 x (children dop)\<rparr>) t)))"
    have ph: "phase t' = (phase t)(op \<mapsto> dop\<lparr>children := remove1 x (children dop)\<rparr>,
                                   x \<mapsto> dx\<lparr>parent := Some i, defined := True\<rparr>,
                                   i \<mapsto> di\<lparr>children := children di @ [x]\<rparr>)"
      using xi xop iop by (auto simp: t'_def put_node_def fun_eq_iff)
    have l: "pd_link i x t = Inr (t', True)"
      using Some dx di dop xi ne xop iop op(3)
      by (simp add: pd_link_def pd_set_parent_def pd_detach_def pd_attach_def Let_def
          put_node_def t'_def)
    have r: "root t' = root t" by (simp add: t'_def put_node_def)
    have d: "dom (phase t') = dom (phase t)" using dx di dop by (auto simp: ph)
    have ir: "\<forall>y d. phase t' y = Some d \<longrightarrow> irn d = Some y"
      using irn dx di dop by (auto simp: ph split: if_splits)
    have ix: "index_of t' = index_of t"
      using dx di dop xi xop iop by (auto simp: fun_eq_iff index_of_def ph)
    have pa: "parent_of t' = (parent_of t)(x := Some i)"
      using dx di dop xi xop iop by (auto simp: fun_eq_iff parent_of_def ph)
    have de: "defined_in t' = (defined_in t)(x := True)"
      using dx di dop xi xop iop by (auto simp: fun_eq_iff defined_in_def ph)
    have ch: "\<forall>y. children_of t' y =
        (if y = i then children_of t i @ [x]
         else if parent_of t x = Some y then remove1 x (children_of t y)
         else children_of t y)"
      using dx di dop xi xop iop Some by (auto simp: children_of_def ph)
    from l r d ir ix pa de ch show ?thesis by blast
  qed
qed


lemma solver_inv_relink:
  assumes inv: "solver_inv g t" and x: "x \<in> reachable g" and xr: "x \<noteq> end_cfgpred g"
    and i: "i \<in> reachable g" and di: "defined_in t i" and lt: "index_of t x < index_of t i"
    and ne: "parent_of t x \<noteq> Some i"
    and r': "root t' = root t" and d': "dom (phase t') = dom (phase t)"
    and irn': "\<forall>y d. phase t' y = Some d \<longrightarrow> irn d = Some y"
    and ix': "index_of t' = index_of t"
    and pa': "parent_of t' = (parent_of t)(x := Some i)"
    and de': "defined_in t' = (defined_in t)(x := True)"
    and ch': "\<forall>y. children_of t' y =
        (if y = i then children_of t i @ [x]
         else if parent_of t x = Some y then remove1 x (children_of t y)
         else children_of t y)"
  shows "solver_inv g t'"
proof -
  note d = solver_invD [OF inv]
  have xi: "x \<noteq> i" using lt by auto
  have c1: "root t' = end_cfgpred g" using r' d(1) by simp
  have c2: "dom (phase t') = reachable g" using d' d(2) by simp
  have c5: "inj_on (index_of t') (reachable g)" using d(5) by (simp add: ix')
  have c6: "\<forall>x \<in> reachable g. \<forall>d \<in> set (ins g x). index_of t' d < index_of t' x"
    using d(6) by (simp add: ix')
  have c7: "defined_in t' (end_cfgpred g)" using d(7) by (simp add: de')
  have c8: "parent_of t' (end_cfgpred g) = None" using d(8) xr by (simp add: pa')
  have c9: "\<forall>y \<in> reachable g. \<not> defined_in t' y \<longrightarrow> parent_of t' y = None"
    using d(9) by (simp add: pa' de')
  have c10: "\<forall>y \<in> reachable g. defined_in t' y \<and> y \<noteq> end_cfgpred g \<longrightarrow>
        (\<exists>p \<in> reachable g. parent_of t' y = Some p \<and> defined_in t' p \<and>
           index_of t' y < index_of t' p)"
  proof (intro ballI impI)
    fix y assume y: "y \<in> reachable g" and dy: "defined_in t' y \<and> y \<noteq> end_cfgpred g"
    show "\<exists>p \<in> reachable g. parent_of t' y = Some p \<and> defined_in t' p \<and>
           index_of t' y < index_of t' p"
    proof (cases "y = x")
      case True
      with i di lt show ?thesis by (auto simp: pa' de' ix')
    next
      case False
      with dy have "defined_in t y" by (simp add: de')
      with d(10) y dy obtain p where
        "p \<in> reachable g" "parent_of t y = Some p" "defined_in t p" "index_of t y < index_of t p"
        by blast
      with False show ?thesis by (auto simp: pa' de' ix')
    qed
  qed
  have c11: "\<forall>y \<in> reachable g. distinct (children_of t' y) \<and>
        set (children_of t' y) = {c \<in> reachable g. parent_of t' c = Some y}"
  proof (intro ballI)
    fix y assume y: "y \<in> reachable g"
    from d(11) y have dy: "distinct (children_of t y)"
      and sy: "set (children_of t y) = {c \<in> reachable g. parent_of t c = Some y}"
      by simp_all
    show "distinct (children_of t' y) \<and>
        set (children_of t' y) = {c \<in> reachable g. parent_of t' c = Some y}"
    proof (cases "y = i")
      case True
      have e: "children_of t' i = children_of t i @ [x]" using ch' by simp
      have sy': "set (children_of t i) = {c \<in> reachable g. parent_of t c = Some i}"
        using sy unfolding True .
      have dy': "distinct (children_of t i)" using dy unfolding True .
      have nx: "x \<notin> set (children_of t i)" unfolding sy' using ne by simp
      have A: "distinct (children_of t' i)" unfolding e using dy' nx by simp
      have "set (children_of t' i) = insert x (set (children_of t i))" unfolding e by simp
      also have "\<dots> = insert x {c \<in> reachable g. parent_of t c = Some i}"
        by (simp only: sy')
      also have "\<dots> = {c \<in> reachable g. ((parent_of t)(x := Some i)) c = Some i}"
        using x by auto
      finally have B: "set (children_of t' i) = {c \<in> reachable g. parent_of t' c = Some i}"
        by (simp only: pa')
      show ?thesis unfolding True using A B by (rule conjI)
    next
      case False
      show ?thesis
      proof (cases "parent_of t x = Some y")
        case True
        have e: "children_of t' y = remove1 x (children_of t y)" using ch' True False by simp
        have "distinct (children_of t' y)" using dy by (simp add: e)
        moreover have "set (children_of t' y) = {c \<in> reachable g. parent_of t' c = Some y}"
        proof -
          have "set (remove1 x (children_of t y)) = set (children_of t y) - {x}"
            using dy by (rule set_remove1_eq)
          also have "\<dots> = {c \<in> reachable g. parent_of t c = Some y} - {x}"
            by (simp only: sy)
          also have "\<dots> = {c \<in> reachable g. ((parent_of t)(x := Some i)) c = Some y}"
            using False by auto
          finally show ?thesis by (simp only: e pa')
        qed
        ultimately show ?thesis by simp
      next
        case nx: False
        have e: "children_of t' y = children_of t y" using ch' nx False by simp
        have "set (children_of t' y) = {c \<in> reachable g. parent_of t' c = Some y}"
          using sy nx False by (auto simp: e pa')
        with dy e show ?thesis by simp
      qed
    qed
  qed
  have c12: "index_of t' ` reachable g = {0..<int (card (reachable g))}"
    using d(12) by (simp add: ix')
  show ?thesis
    unfolding solver_inv_def
    by (intro conjI c1 c2 d(3) irn' c5 c6 c7 c8 c9 c10 c11 c12)
qed

text \<open>A link step keeps the invariant, and reports a change exactly when the parent differs.\<close>

lemma pd_link_inv:
  assumes inv: "solver_inv g t" and x: "x \<in> reachable g" and xr: "x \<noteq> end_cfgpred g"
    and i: "i \<in> reachable g" and di: "defined_in t i" and lt: "index_of t x < index_of t i"
  shows "\<exists>t'. pd_link i x t = Inr (t', parent_of t x \<noteq> Some i) \<and> solver_inv g t' \<and>
     (parent_of t x = Some i \<longrightarrow> t' = t) \<and>
     index_of t' = index_of t \<and> parent_of t' = (parent_of t)(x := Some i) \<and>
     defined_in t' = (defined_in t)(x := True)"
proof (cases "parent_of t x = Some i")
  case True
  from solver_inv_phase [OF inv x] obtain dx where
    dx: "phase t x = Some dx" "parent dx = parent_of t x" by blast
  have l: "pd_link i x t = Inr (t, False)" using dx True by (simp add: pd_link_def)
  have "defined_in t x" using solver_inv_parent_some [OF inv x True] by simp
  then have "defined_in t = (defined_in t)(x := True)" by (auto simp: fun_eq_iff)
  moreover have "parent_of t = (parent_of t)(x := Some i)" using True by (auto simp: fun_eq_iff)
  ultimately show ?thesis using l True inv by auto
next
  case False
  have xi: "x \<noteq> i" using lt by auto
  from pd_link_effect [OF inv x i xi False] obtain t' where
    l: "pd_link i x t = Inr (t', True)"
    and e: "root t' = root t" "dom (phase t') = dom (phase t)"
      "\<forall>y d. phase t' y = Some d \<longrightarrow> irn d = Some y"
      "index_of t' = index_of t"
      "parent_of t' = (parent_of t)(x := Some i)"
      "defined_in t' = (defined_in t)(x := True)"
      "\<forall>y. children_of t' y =
        (if y = i then children_of t i @ [x]
         else if parent_of t x = Some y then remove1 x (children_of t y)
         else children_of t y)"
    by blast
  have "solver_inv g t'"
    by (rule solver_inv_relink [OF inv x xr i di lt False e])
  with l e(4,5,6) False show ?thesis by auto
qed

lemma in_dom_reachable:
  "solver_inv g t \<Longrightarrow> phase t x = Some d \<Longrightarrow> x \<in> reachable g"
  using solver_invD(2) by blast

lemma not_reachable_phase:
  "solver_inv g t \<Longrightarrow> x \<notin> reachable g \<Longrightarrow> phase t x = None"
  using solver_invD(2) by blast

lemma defined_in_reachable:
  assumes "solver_inv g t" and "defined_in t x"
  shows "x \<in> reachable g"
proof (cases "phase t x")
  case None
  with assms(2) show ?thesis by (simp add: defined_in_def)
next
  case (Some d)
  with assms(1) show ?thesis by (rule in_dom_reachable)
qed

text \<open>The loops in terms of the fields.\<close>

lemma pd_walk_up_Suc:
  "pd_walk_up (Suc n) t a b =
     (if phase t a = None \<or> phase t b = None then Some (Inl NullDeref)
      else if index_of t a < index_of t b
           then (case parent_of t a of None \<Rightarrow> Some (Inl NullDeref) | Some p \<Rightarrow> pd_walk_up n t p b)
           else Some (Inr a))"
  by (auto simp: index_of_def parent_of_def split: option.splits)

lemma pd_find_idom_Cons:
  "pd_find_idom t (s # ss) = (if defined_in t s then Some s else pd_find_idom t ss)"
  by (auto simp: defined_in_def phase_get_irn_data_def split: option.splits)

lemma pd_intersect_all_Cons:
  "pd_intersect_all n t (s # ss) i =
     (if s \<noteq> i \<and> defined_in t s
      then (case pd_compute_intersect n t s i of
              None \<Rightarrow> None
            | Some (Inl e) \<Rightarrow> Some (Inl e)
            | Some (Inr c) \<Rightarrow> pd_intersect_all n t ss c)
      else pd_intersect_all n t ss i)"
  by (auto simp: defined_in_def phase_get_irn_data_def split: option.splits)

declare pd_find_idom.simps(2) [simp del] pd_intersect_all.simps(2) [simp del]

lemma find_idom_some:
  "\<exists>u \<in> set srcs. defined_in t u \<Longrightarrow>
   \<exists>f. pd_find_idom t srcs = Some f \<and> f \<in> set srcs \<and> defined_in t f"
proof (induction srcs)
  case Nil
  then show ?case by simp
next
  case (Cons s ss)
  show ?case
  proof (cases "defined_in t s")
    case True
    then show ?thesis by (simp add: pd_find_idom_Cons)
  next
    case False
    with Cons.prems have "\<exists>u \<in> set ss. defined_in t u" by auto
    from Cons.IH [OF this] False show ?thesis by (auto simp: pd_find_idom_Cons)
  qed
qed

lemma intersect_all_total:
  assumes inv: "solver_inv g t"
  shows "i \<in> reachable g \<Longrightarrow> defined_in t i \<Longrightarrow>
     \<exists>n c. (\<forall>j. pd_intersect_all (n + j) t srcs i = Some (Inr c)) \<and> c \<in> reachable g \<and>
       defined_in t c \<and> index_of t i \<le> index_of t c"
proof (induction srcs arbitrary: i)
  case Nil
  then show ?case by auto
next
  case (Cons s ss)
  show ?case
  proof (cases "s \<noteq> i \<and> defined_in t s")
    case False
    from Cons.IH [OF Cons.prems] obtain n c where
      r: "\<And>j. pd_intersect_all (n + j) t ss i = Some (Inr c)"
      and c: "c \<in> reachable g" "defined_in t c" "index_of t i \<le> index_of t c"
      by blast
    have "pd_intersect_all (n + j) t (s # ss) i = Some (Inr c)" for j
      using False r [of j] by (simp only: pd_intersect_all_Cons if_False)
    with c show ?thesis by blast
  next
    case True
    then have ds: "defined_in t s" by simp
    have sr: "s \<in> reachable g" by (rule defined_in_reachable [OF inv ds])
    from intersect_total [OF inv sr ds Cons.prems] obtain n1 c1 where
      r1: "\<And>j. pd_compute_intersect (n1 + j) t s i = Some (Inr c1)"
      and c1: "c1 \<in> reachable g" "defined_in t c1" "index_of t i \<le> index_of t c1"
      by blast
    from Cons.IH [OF c1(1,2)] obtain n2 c where
      r2: "\<And>j. pd_intersect_all (n2 + j) t ss c1 = Some (Inr c)"
      and c: "c \<in> reachable g" "defined_in t c" "index_of t c1 \<le> index_of t c"
      by blast
    have "pd_intersect_all (n1 + n2 + j) t (s # ss) i = Some (Inr c)" for j
    proof -
      have e1: "pd_compute_intersect (n1 + n2 + j) t s i = Some (Inr c1)"
        using r1 [of "n2 + j"] by (simp add: ac_simps)
      have e2: "pd_intersect_all (n1 + n2 + j) t ss c1 = Some (Inr c)"
        using r2 [of "n1 + j"] by (simp add: ac_simps)
      show ?thesis using True e1 e2 by (simp add: pd_intersect_all_Cons)
    qed
    moreover have "index_of t i \<le> index_of t c" using c1(3) c(3) by simp
    ultimately show ?thesis using c(1,2) by blast
  qed
qed

lemma use_index:
  assumes inv: "solver_inv g t" and mir: "mirrored_edges g"
    and x: "x \<in> reachable g" and u: "u \<in> set (outs g x)" and ur: "u \<in> reachable g"
  shows "index_of t x < index_of t u"
proof -
  from mir x u ur have "x \<in> set (ins g u)" unfolding mirrored_edges_def by blast
  with solver_invD(6) [OF inv] ur show ?thesis by blast
qed

lemma compute_idom_total:
  assumes inv: "solver_inv g t" and mir: "mirrored_edges g"
    and x: "x \<in> reachable g" and u: "\<exists>u \<in> set (outs g x). defined_in t u"
  shows "\<exists>n c. (\<forall>j. pd_compute_idom (n + j) g x t = Some (Inr c)) \<and> c \<in> reachable g \<and>
       defined_in t c \<and> index_of t x < index_of t c"
proof -
  from find_idom_some [OF u] obtain f where
    f: "pd_find_idom t (outs g x) = Some f" "f \<in> set (outs g x)" "defined_in t f" by blast
  have fr: "f \<in> reachable g" by (rule defined_in_reachable [OF inv f(3)])
  from intersect_all_total [OF inv fr f(3), of "outs g x"] obtain n c where
    r: "\<And>j. pd_intersect_all (n + j) t (outs g x) f = Some (Inr c)"
    and c: "c \<in> reachable g" "defined_in t c" "index_of t f \<le> index_of t c"
    by blast
  have "pd_compute_idom (n + j) g x t = Some (Inr c)" for j
    using f(1) r [of j] by (simp add: pd_compute_idom_def)
  moreover have "index_of t x < index_of t c"
    using use_index [OF inv mir x f(2) fr] c(3) by simp
  ultimately show ?thesis using c(1,2) by blast
qed

lemma compute_idom_det:
  assumes "pd_compute_idom n g x t = Some r" and "pd_compute_idom m g x t = Some r'"
  shows "r = r'"
proof -
  from compute_idom_mono [OF assms(1), of m] compute_idom_mono [OF assms(2), of n]
  show ?thesis by (simp add: add.commute)
qed

text \<open>Processing one node other than the root.\<close>

lemma compute_node_total:
  assumes inv: "solver_inv g t" and mir: "mirrored_edges g"
    and x: "x \<in> reachable g" and xr: "x \<noteq> end_cfgpred g"
    and u: "\<exists>u \<in> set (outs g x). defined_in t u"
  shows "\<exists>n t' c. (\<forall>j. pd_compute_node (n + j) g x t = Some (Inr (t', parent_of t x \<noteq> Some c))) \<and>
     (\<forall>j. pd_compute_idom (n + j) g x t = Some (Inr c)) \<and>
     solver_inv g t' \<and> (parent_of t x = Some c \<longrightarrow> t' = t) \<and>
     index_of t' = index_of t \<and> parent_of t' = (parent_of t)(x := Some c) \<and>
     defined_in t' = (defined_in t)(x := True)"
proof -
  from compute_idom_total [OF inv mir x u] obtain n c where
    r: "\<And>j. pd_compute_idom (n + j) g x t = Some (Inr c)"
    and c: "c \<in> reachable g" "defined_in t c" "index_of t x < index_of t c"
    by blast
  from pd_link_inv [OF inv x xr c] obtain t' where
    l: "pd_link c x t = Inr (t', parent_of t x \<noteq> Some c)"
    and t': "solver_inv g t'" "parent_of t x = Some c \<longrightarrow> t' = t"
      "index_of t' = index_of t" "parent_of t' = (parent_of t)(x := Some c)"
      "defined_in t' = (defined_in t)(x := True)"
    by blast
  from solver_inv_phase [OF inv x] obtain dx where dx: "phase t x = Some dx" by blast
  have "pd_compute_node (n + j) g x t = Some (Inr (t', parent_of t x \<noteq> Some c))" for j
    using dx r [of j] l by (simp add: pd_compute_node_def phase_get_irn_data_def)
  with r t' show ?thesis by blast
qed


text \<open>The candidate of a node depends on the records of larger index only.\<close>

lemma agree_fromD:
  assumes "agree_from i t t'"
  shows "dom (phase t') = dom (phase t)" "index_of t' = index_of t"
    "\<And>y. i \<le> index_of t y \<Longrightarrow> parent_of t' y = parent_of t y"
    "\<And>y. i \<le> index_of t y \<Longrightarrow> defined_in t' y = defined_in t y"
  using assms unfolding agree_from_def by blast+

lemma agree_from_None:
  assumes "agree_from i t t'"
  shows "phase t' y = None \<longleftrightarrow> phase t y = None"
  using agree_fromD(1) [OF assms] by (metis domIff)

lemma agree_from_mono:
  "agree_from i t t' \<Longrightarrow> i \<le> k \<Longrightarrow> agree_from k t t'"
  unfolding agree_from_def by auto

lemma walk_up_res:
  assumes inv: "solver_inv g t"
  shows "a \<in> reachable g \<Longrightarrow> pd_walk_up n t a b = Some (Inr a') \<Longrightarrow>
         a' \<in> reachable g \<and> index_of t a \<le> index_of t a'"
proof (induction n arbitrary: a)
  case 0
  then show ?case by simp
next
  case (Suc n)
  show ?case
  proof (cases "index_of t a < index_of t b")
    case False
    with Suc.prems show ?thesis
      by (auto simp: pd_walk_up_Suc simp del: pd_walk_up.simps split: if_splits)
  next
    case True
    with Suc.prems(2) obtain p where p: "parent_of t a = Some p"
      and w: "pd_walk_up n t p b = Some (Inr a')"
      by (auto simp: pd_walk_up_Suc simp del: pd_walk_up.simps split: if_splits option.splits)
    from solver_inv_parent_some [OF inv Suc.prems(1) p]
    have pr: "p \<in> reachable g" "index_of t a < index_of t p" by simp_all
    from Suc.IH [OF pr(1) w] pr(2) show ?thesis by simp
  qed
qed

lemma walk_up_frame:
  assumes inv: "solver_inv g t" and ag: "agree_from i t t'"
  shows "a \<in> reachable g \<Longrightarrow> i \<le> index_of t a \<Longrightarrow> pd_walk_up n t' a b = pd_walk_up n t a b"
proof (induction n arbitrary: a)
  case 0
  show ?case by simp
next
  case (Suc n)
  note e = agree_from_None [OF ag] agree_fromD(2) [OF ag] agree_fromD(3) [OF ag Suc.prems(2)]
  show ?case
  proof (cases "parent_of t a")
    case None
    then show ?thesis by (simp add: pd_walk_up_Suc e del: pd_walk_up.simps)
  next
    case (Some p)
    from solver_inv_parent_some [OF inv Suc.prems(1) Some]
    have pr: "p \<in> reachable g" "index_of t a < index_of t p" by simp_all
    have "pd_walk_up n t' p b = pd_walk_up n t p b"
      using pr Suc.prems(2) by (intro Suc.IH) simp_all
    with Some show ?thesis by (simp add: pd_walk_up_Suc e del: pd_walk_up.simps)
  qed
qed

lemma intersect_res:
  assumes inv: "solver_inv g t"
  shows "a \<in> reachable g \<Longrightarrow> b \<in> reachable g \<Longrightarrow> pd_compute_intersect n t a b = Some (Inr c) \<Longrightarrow>
         c \<in> reachable g \<and> index_of t a \<le> index_of t c \<and> index_of t b \<le> index_of t c"
proof (induction n arbitrary: a b)
  case 0
  then show ?case by simp
next
  case (Suc n)
  show ?case
  proof (cases "a = b")
    case True
    with Suc.prems show ?thesis by simp
  next
    case False
    from Suc.prems(3) False obtain a1 where w1: "pd_walk_up (Suc n) t a b = Some (Inr a1)"
      by (cases "pd_walk_up (Suc n) t a b")
         (auto simp del: pd_walk_up.simps split: sum.splits)
    from Suc.prems(3) False w1 obtain b1 where w2: "pd_walk_up (Suc n) t b a1 = Some (Inr b1)"
      by (cases "pd_walk_up (Suc n) t b a1")
         (auto simp del: pd_walk_up.simps split: sum.splits)
    from Suc.prems(3) False w1 w2 have r: "pd_compute_intersect n t a1 b1 = Some (Inr c)"
      by (simp del: pd_walk_up.simps)
    from walk_up_res [OF inv Suc.prems(1) w1]
    have a1: "a1 \<in> reachable g" "index_of t a \<le> index_of t a1" by simp_all
    from walk_up_res [OF inv Suc.prems(2) w2]
    have b1: "b1 \<in> reachable g" "index_of t b \<le> index_of t b1" by simp_all
    from Suc.IH [OF a1(1) b1(1) r] a1(2) b1(2) show ?thesis by simp
  qed
qed

lemma intersect_frame:
  assumes inv: "solver_inv g t" and ag: "agree_from i t t'"
  shows "a \<in> reachable g \<Longrightarrow> b \<in> reachable g \<Longrightarrow> i \<le> index_of t a \<Longrightarrow> i \<le> index_of t b \<Longrightarrow>
         pd_compute_intersect n t' a b = pd_compute_intersect n t a b"
proof (induction n arbitrary: a b)
  case 0
  show ?case by simp
next
  case (Suc n)
  have w1: "pd_walk_up (Suc n) t' a b = pd_walk_up (Suc n) t a b"
    by (rule walk_up_frame [OF inv ag Suc.prems(1,3)])
  show ?case
  proof (cases "pd_walk_up (Suc n) t a b")
    case None
    with w1 show ?thesis by (simp del: pd_walk_up.simps)
  next
    case (Some r1)
    show ?thesis
    proof (cases r1)
      case (Inl e)
      with Some w1 show ?thesis by (simp del: pd_walk_up.simps)
    next
      case (Inr a1)
      from walk_up_res [OF inv Suc.prems(1) Some [unfolded Inr]]
      have a1: "a1 \<in> reachable g" "index_of t a \<le> index_of t a1" by simp_all
      have w2: "pd_walk_up (Suc n) t' b a1 = pd_walk_up (Suc n) t b a1"
        by (rule walk_up_frame [OF inv ag Suc.prems(2,4)])
      show ?thesis
      proof (cases "pd_walk_up (Suc n) t b a1")
        case None
        with Some Inr w1 w2 show ?thesis by (simp del: pd_walk_up.simps)
      next
        case s2: (Some r2)
        show ?thesis
        proof (cases r2)
          case (Inl e)
          with Some Inr w1 w2 s2 show ?thesis by (simp del: pd_walk_up.simps)
        next
          case i2: (Inr b1)
          from walk_up_res [OF inv Suc.prems(2) s2 [unfolded i2]]
          have b1: "b1 \<in> reachable g" "index_of t b \<le> index_of t b1" by simp_all
          have "pd_compute_intersect n t' a1 b1 = pd_compute_intersect n t a1 b1"
            using a1 b1 Suc.prems(3,4) by (intro Suc.IH) simp_all
          with Some Inr w1 w2 s2 i2 show ?thesis by (simp del: pd_walk_up.simps)
        qed
      qed
    qed
  qed
qed

lemma find_idom_frame:
  assumes ag: "agree_from i t t'"
  shows "\<forall>s \<in> set srcs. s \<in> dom (phase t) \<longrightarrow> i \<le> index_of t s \<Longrightarrow>
         pd_find_idom t' srcs = pd_find_idom t srcs"
proof (induction srcs)
  case Nil
  show ?case by simp
next
  case (Cons s ss)
  have d: "defined_in t' s = defined_in t s"
  proof (cases "phase t s")
    case None
    with agree_from_None [OF ag, of s] show ?thesis by (simp add: defined_in_def)
  next
    case (Some d)
    with Cons.prems have "i \<le> index_of t s" by auto
    then show ?thesis by (rule agree_fromD(4) [OF ag])
  qed
  from Cons.prems have "\<forall>s \<in> set ss. s \<in> dom (phase t) \<longrightarrow> i \<le> index_of t s" by simp
  from Cons.IH [OF this] d show ?case by (simp add: pd_find_idom_Cons)
qed

lemma intersect_all_frame:
  assumes inv: "solver_inv g t" and ag: "agree_from i t t'"
  shows "\<forall>s \<in> set srcs. s \<in> dom (phase t) \<longrightarrow> i \<le> index_of t s \<Longrightarrow>
         c \<in> reachable g \<Longrightarrow> i \<le> index_of t c \<Longrightarrow>
         pd_intersect_all n t' srcs c = pd_intersect_all n t srcs c"
proof (induction srcs arbitrary: c)
  case Nil
  show ?case by simp
next
  case (Cons s ss)
  from Cons.prems(1) have ss: "\<forall>s \<in> set ss. s \<in> dom (phase t) \<longrightarrow> i \<le> index_of t s" by simp
  show ?case
  proof (cases "phase t s")
    case None
    then have "defined_in t s = False" "defined_in t' s = False"
      using agree_from_None [OF ag, of s] by (simp_all add: defined_in_def)
    with Cons.IH [OF ss Cons.prems(2,3)] show ?thesis by (simp add: pd_intersect_all_Cons)
  next
    case (Some d)
    with Cons.prems(1) have ge: "i \<le> index_of t s" by auto
    have sr: "s \<in> reachable g" by (rule in_dom_reachable [OF inv Some])
    have d: "defined_in t' s = defined_in t s" using ge by (rule agree_fromD(4) [OF ag])
    have f: "pd_compute_intersect n t' s c = pd_compute_intersect n t s c"
      by (rule intersect_frame [OF inv ag sr Cons.prems(2) ge Cons.prems(3)])
    show ?thesis
    proof (cases "pd_compute_intersect n t s c")
      case None
      with d f Cons.IH [OF ss Cons.prems(2,3)] show ?thesis
        by (simp add: pd_intersect_all_Cons)
    next
      case s1: (Some r1)
      show ?thesis
      proof (cases r1)
        case (Inl e)
        with s1 d f Cons.IH [OF ss Cons.prems(2,3)] show ?thesis
          by (simp add: pd_intersect_all_Cons)
      next
        case (Inr c1)
        from intersect_res [OF inv sr Cons.prems(2) s1 [unfolded Inr]]
        have c1: "c1 \<in> reachable g" "index_of t c \<le> index_of t c1" by simp_all
        have "pd_intersect_all n t' ss c1 = pd_intersect_all n t ss c1"
          using c1 Cons.prems(3) by (intro Cons.IH [OF ss]) simp_all
        with s1 Inr d f Cons.IH [OF ss Cons.prems(2,3)] show ?thesis
          by (simp add: pd_intersect_all_Cons)
      qed
    qed
  qed
qed

lemma find_idom_defined:
  "pd_find_idom t srcs = Some f \<Longrightarrow> f \<in> set srcs \<and> defined_in t f"
  by (induction srcs) (auto simp: pd_find_idom_Cons split: if_splits)

lemma compute_idom_frame:
  assumes inv: "solver_inv g t" and mir: "mirrored_edges g"
    and x: "x \<in> reachable g" and ag: "agree_from (index_of t x + 1) t t'"
  shows "pd_compute_idom n g x t' = pd_compute_idom n g x t"
proof -
  have us: "\<forall>s \<in> set (outs g x). s \<in> dom (phase t) \<longrightarrow> index_of t x + 1 \<le> index_of t s"
  proof (intro ballI impI)
    fix s assume s: "s \<in> set (outs g x)" "s \<in> dom (phase t)"
    then have "s \<in> reachable g" using solver_invD(2) [OF inv] by simp
    from use_index [OF inv mir x s(1) this] show "index_of t x + 1 \<le> index_of t s" by simp
  qed
  have f: "pd_find_idom t' (outs g x) = pd_find_idom t (outs g x)"
    by (rule find_idom_frame [OF ag us])
  show ?thesis
  proof (cases "pd_find_idom t (outs g x)")
    case None
    with f show ?thesis by (simp add: pd_compute_idom_def)
  next
    case (Some c)
    from find_idom_defined [OF Some] have c: "c \<in> set (outs g x)" "defined_in t c" by simp_all
    have cr: "c \<in> reachable g" by (rule defined_in_reachable [OF inv c(2)])
    have ci: "index_of t x + 1 \<le> index_of t c" using use_index [OF inv mir x c(1) cr] by simp
    have "pd_intersect_all n t' (outs g x) c = pd_intersect_all n t (outs g x) c"
      by (rule intersect_all_frame [OF inv ag us cr ci])
    with f Some show ?thesis by (simp add: pd_compute_idom_def)
  qed
qed

lemma settled_frame:
  assumes inv: "solver_inv g t" and mir: "mirrored_edges g"
    and x: "x \<in> reachable g" and ag: "agree_from (index_of t x) t t'"
    and s: "settled g t x"
  shows "settled g t' x"
proof -
  from s obtain n c where c: "pd_compute_idom n g x t = Some (Inr c)" "parent_of t x = Some c"
    unfolding settled_def by blast
  have "agree_from (index_of t x + 1) t t'" by (rule agree_from_mono [OF ag]) simp
  from compute_idom_frame [OF inv mir x this, of n] c(1)
  have "pd_compute_idom n g x t' = Some (Inr c)" by simp
  moreover have "parent_of t' x = Some c" using agree_fromD(3) [OF ag, of x] c(2) by simp
  ultimately show ?thesis unfolding settled_def by blast
qed


lemma solver_inv_index_range:
  assumes "solver_inv g t" and "x \<in> reachable g"
  shows "0 \<le> index_of t x" "index_of t x < int (card (reachable g))"
proof -
  from assms(2) have "index_of t x \<in> index_of t ` reachable g" by (rule imageI)
  then have "index_of t x \<in> {0..<int (card (reachable g))}"
    by (simp only: solver_invD(12) [OF assms(1)])
  then show "0 \<le> index_of t x" "index_of t x < int (card (reachable g))" by simp_all
qed

section \<open>One pass of the solver\<close>

lemma is_root_irn_inv:
  assumes "solver_inv g t"
  shows "is_root_irn t x = Inr (x = end_cfgpred g)"
proof -
  note d = solver_invD [OF assms]
  from solver_inv_phase [OF assms reachable_root] obtain dr where
    dr: "phase t (end_cfgpred g) = Some dr" by blast
  with d(4) have "irn dr = Some (end_cfgpred g)" by blast
  with dr d(1) show ?thesis by (auto simp: is_root_irn_def)
qed

lemma pass_step:
  assumes inv: "solver_inv g t" and mir: "mirrored_edges g"
    and x: "x \<in> reachable g" and xr: "x \<noteq> end_cfgpred g"
    and u: "\<exists>u \<in> set (outs g x). defined_in t u"
  shows "\<exists>n t' ch. (\<forall>j. pd_compute_node (n + j) g x t = Some (Inr (t', ch))) \<and>
     solver_inv g t' \<and> defined_in t' x \<and> (\<forall>u. defined_in t u \<longrightarrow> defined_in t' u) \<and>
     index_of t' = index_of t \<and> settled g t' x \<and>
     (settled g t x \<longrightarrow> t' = t \<and> \<not> ch) \<and>
     (\<forall>y \<in> reachable g. index_of t x < index_of t y \<and> settled g t y \<longrightarrow> settled g t' y)"
proof -
  from compute_node_total [OF inv mir x xr u] obtain n t' c where
    r: "\<And>j. pd_compute_node (n + j) g x t = Some (Inr (t', parent_of t x \<noteq> Some c))"
    and ci: "\<And>j. pd_compute_idom (n + j) g x t = Some (Inr c)"
    and inv': "solver_inv g t'" and same: "parent_of t x = Some c \<longrightarrow> t' = t"
    and ix: "index_of t' = index_of t" and pa: "parent_of t' = (parent_of t)(x := Some c)"
    and de: "defined_in t' = (defined_in t)(x := True)"
    by blast
  have ag: "agree_from (index_of t x + 1) t t'"
    unfolding agree_from_def
  proof (intro conjI allI impI)
    show "dom (phase t') = dom (phase t)"
      using solver_invD(2) [OF inv] solver_invD(2) [OF inv'] by simp
    show "index_of t' = index_of t" by (rule ix)
    fix y assume "index_of t x + 1 \<le> index_of t y"
    then have "y \<noteq> x" by auto
    then show "parent_of t' y = parent_of t y" "defined_in t' y = defined_in t y"
      by (simp_all add: pa de)
  qed
  have "pd_compute_idom n g x t' = pd_compute_idom n g x t"
    by (rule compute_idom_frame [OF inv mir x ag])
  with ci [of 0] have "pd_compute_idom n g x t' = Some (Inr c)" by simp
  moreover have "parent_of t' x = Some c" by (simp add: pa)
  ultimately have s': "settled g t' x" unfolding settled_def by blast
  have st: "settled g t x \<longrightarrow> t' = t \<and> \<not> (parent_of t x \<noteq> Some c)"
  proof
    assume "settled g t x"
    then obtain m c' where c': "pd_compute_idom m g x t = Some (Inr c')" "parent_of t x = Some c'"
      unfolding settled_def by blast
    from compute_idom_det [OF c'(1) ci [of 0]] have "c' = c" by simp
    with c'(2) same show "t' = t \<and> \<not> (parent_of t x \<noteq> Some c)" by simp
  qed
  have fr: "\<forall>y \<in> reachable g. index_of t x < index_of t y \<and> settled g t y \<longrightarrow> settled g t' y"
  proof (intro ballI impI)
    fix y assume y: "y \<in> reachable g" and h: "index_of t x < index_of t y \<and> settled g t y"
    have "agree_from (index_of t y) t t'" using h by (intro agree_from_mono [OF ag]) simp
    from settled_frame [OF inv mir y this] h show "settled g t' y" by simp
  qed
  have "defined_in t' x" by (simp add: de)
  moreover have "\<forall>u. defined_in t u \<longrightarrow> defined_in t' u" by (simp add: de)
  ultimately show ?thesis using r inv' ix s' st fr by blast
qed

lemma pass_invD:
  assumes "pass_inv g L K t V"
  shows "solver_inv g t" "K \<subseteq> V" "V \<subseteq> reachable g" "settled_from g t (L + 1)"
    "\<forall>y \<in> V. y \<noteq> end_cfgpred g \<and> index_of t y = L \<longrightarrow> settled g t y"
    "\<forall>y \<in> V - K. set (ins g y) \<subseteq> V"
    "\<forall>y \<in> V. defined_in t y"
  using assms unfolding pass_inv_def by - (elim conjE, assumption)+

lemma pass_inv_root:
  assumes "pass_inv g L K t V" and "end_cfgpred g \<notin> V"
  shows "pass_inv g L (insert (end_cfgpred g) K) t (insert (end_cfgpred g) V)"
proof -
  note d = pass_invD [OF assms(1)]
  have e: "insert (end_cfgpred g) V - insert (end_cfgpred g) K = V - K" using assms(2) by auto
  show ?thesis
    unfolding pass_inv_def e
  proof (intro conjI)
    show "insert (end_cfgpred g) K \<subseteq> insert (end_cfgpred g) V" using d(2) by auto
    show "insert (end_cfgpred g) V \<subseteq> reachable g" using d(3) reachable_root by simp
    show "\<forall>y \<in> insert (end_cfgpred g) V. y \<noteq> end_cfgpred g \<and> index_of t y = L \<longrightarrow> settled g t y"
      using d(5) by simp
    show "\<forall>y \<in> V - K. set (ins g y) \<subseteq> insert (end_cfgpred g) V" using d(6) by auto
    show "\<forall>y \<in> insert (end_cfgpred g) V. defined_in t y"
      using d(7) solver_invD(7) [OF d(1)] by simp
  qed (rule d)+
qed

lemma pass_inv_step:
  assumes pi: "pass_inv g L K t V" and x: "x \<in> reachable g" and xV: "x \<notin> V"
    and xr: "x \<noteq> end_cfgpred g"
    and inv': "solver_inv g t'" and ix: "index_of t' = index_of t" and s': "settled g t' x"
    and st: "settled g t x \<longrightarrow> t' = t"
    and fr: "\<forall>y \<in> reachable g. index_of t x < index_of t y \<and> settled g t y \<longrightarrow> settled g t' y"
    and dx: "defined_in t' x" and dm: "\<forall>u. defined_in t u \<longrightarrow> defined_in t' u"
  shows "pass_inv g L (insert x K) t' (insert x V)"
proof -
  note d = pass_invD [OF pi]
  note inj = solver_invD(5) [OF d(1)]
  have e: "insert x V - insert x K = V - K" using xV by auto
  have above: "t' = t" if "L + 1 \<le> index_of t x"
  proof -
    from d(4) x xr that have "settled g t x" unfolding settled_from_def by blast
    with st show ?thesis by simp
  qed
  have keep: "settled g t' y"
    if y: "y \<in> reachable g" "settled g t y"
      and lv: "L + 1 \<le> index_of t y \<or> (y \<noteq> x \<and> index_of t y = L)" for y
  proof (cases "index_of t x < index_of t y")
    case True
    with fr y show ?thesis by blast
  next
    case False
    have "L + 1 \<le> index_of t x"
      using lv
    proof
      assume "L + 1 \<le> index_of t y"
      with False show ?thesis by simp
    next
      assume a: "y \<noteq> x \<and> index_of t y = L"
      then have "index_of t y \<noteq> index_of t x" using inj x y(1) by (auto dest: inj_onD)
      with False a show ?thesis by simp
    qed
    from above [OF this] y(2) show ?thesis by simp
  qed
  have c4: "settled_from g t' (L + 1)"
    unfolding settled_from_def ix
  proof (intro ballI impI)
    fix y assume y: "y \<in> reachable g" and h: "y \<noteq> end_cfgpred g \<and> L + 1 \<le> index_of t y"
    with d(4) have "settled g t y" unfolding settled_from_def by blast
    with y h show "settled g t' y" by (intro keep) simp_all
  qed
  have c5: "\<forall>y \<in> insert x V. y \<noteq> end_cfgpred g \<and> index_of t' y = L \<longrightarrow> settled g t' y"
    unfolding ix
  proof (intro ballI impI)
    fix y assume y: "y \<in> insert x V" and h: "y \<noteq> end_cfgpred g \<and> index_of t y = L"
    show "settled g t' y"
    proof (cases "y = x")
      case True
      with s' show ?thesis by simp
    next
      case False
      with y have yV: "y \<in> V" by simp
      with d(5) h have "settled g t y" by blast
      moreover have "y \<in> reachable g" using yV d(3) by auto
      ultimately show ?thesis using False h by (intro keep) simp_all
    qed
  qed
  show ?thesis
    unfolding pass_inv_def e
  proof (intro conjI)
    show "insert x K \<subseteq> insert x V" using d(2) by auto
    show "insert x V \<subseteq> reachable g" using d(3) x by simp
    show "\<forall>y \<in> V - K. set (ins g y) \<subseteq> insert x V" using d(6) by auto
    show "\<forall>y \<in> insert x V. defined_in t' y" using d(7) dx dm by simp
  qed (rule inv' c4 c5)+
qed

lemma pass_inv_pop:
  assumes pi: "pass_inv g L (insert x K) t V" and xK: "x \<notin> K" and dx: "set (ins g x) \<subseteq> V"
  shows "pass_inv g L K t V"
proof -
  note d = pass_invD [OF pi]
  show ?thesis
    unfolding pass_inv_def
  proof (intro conjI)
    show "K \<subseteq> V" using d(2) by auto
    show "\<forall>y \<in> V - K. set (ins g y) \<subseteq> V"
    proof
      fix y assume y: "y \<in> V - K"
      show "set (ins g y) \<subseteq> V"
      proof (cases "y = x")
        case True
        with dx show ?thesis by simp
      next
        case False
        with y have "y \<in> V - insert x K" by simp
        with d(6) show ?thesis by blast
      qed
    qed
  qed (rule d)+
qed

lemma pass_deps_total:
  assumes node: "\<And>d t V. d \<in> set ds \<Longrightarrow> pass_inv g L K0 t V \<Longrightarrow>
      d \<in> V \<or> (\<exists>u \<in> set (outs g d). defined_in t u) \<Longrightarrow>
      \<exists>n t' V' ch. (\<forall>j. pd_compute (n + j) g d (t, V) = Some (Inr ((t', V'), ch))) \<and>
        pass_inv g L K0 t' V' \<and> V \<subseteq> V' \<and> d \<in> V' \<and>
        (\<forall>u. defined_in t u \<longrightarrow> defined_in t' u) \<and> (settled_from g t 0 \<longrightarrow> \<not> ch \<and> t' = t)"
  shows "pass_inv g L K0 t V \<Longrightarrow> \<forall>d \<in> set ds. \<exists>u \<in> set (outs g d). defined_in t u \<Longrightarrow>
      \<exists>n t' V' ch. (\<forall>j. pd_compute_deps (n + j) g ds (t, V) = Some (Inr ((t', V'), ch))) \<and>
        pass_inv g L K0 t' V' \<and> V \<subseteq> V' \<and> set ds \<subseteq> V' \<and>
        (\<forall>u. defined_in t u \<longrightarrow> defined_in t' u) \<and> (settled_from g t 0 \<longrightarrow> \<not> ch \<and> t' = t)"
  using node
proof (induction ds arbitrary: t V)
  case Nil
  show ?case
    by (intro exI [of _ 0] exI [of _ t] exI [of _ V] exI [of _ False]) (simp add: Nil.prems(1))
next
  case (Cons d ds)
  have "d \<in> V \<or> (\<exists>u \<in> set (outs g d). defined_in t u)" using Cons.prems(2) by simp
  from Cons.prems(3) [OF _ Cons.prems(1) this] obtain n1 t1 V1 ch1 where
    r1: "\<And>j. pd_compute (n1 + j) g d (t, V) = Some (Inr ((t1, V1), ch1))"
    and i1: "pass_inv g L K0 t1 V1" and s1: "V \<subseteq> V1" and d1: "d \<in> V1"
    and m1: "\<forall>u. defined_in t u \<longrightarrow> defined_in t1 u"
    and f1: "settled_from g t 0 \<longrightarrow> \<not> ch1 \<and> t1 = t"
    by auto
  have pre: "\<forall>d \<in> set ds. \<exists>u \<in> set (outs g d). defined_in t1 u"
  proof
    fix e assume "e \<in> set ds"
    with Cons.prems(2) obtain u where "u \<in> set (outs g e)" "defined_in t u" by auto
    with m1 show "\<exists>u \<in> set (outs g e). defined_in t1 u" by blast
  qed
  have "\<exists>n t' V' ch. (\<forall>j. pd_compute_deps (n + j) g ds (t1, V1) = Some (Inr ((t', V'), ch))) \<and>
        pass_inv g L K0 t' V' \<and> V1 \<subseteq> V' \<and> set ds \<subseteq> V' \<and>
        (\<forall>u. defined_in t1 u \<longrightarrow> defined_in t' u) \<and> (settled_from g t1 0 \<longrightarrow> \<not> ch \<and> t' = t1)"
    by (rule Cons.IH [OF i1 pre]) (rule Cons.prems(3), simp_all)
  then obtain n2 t2 V2 ch2 where
    r2: "\<And>j. pd_compute_deps (n2 + j) g ds (t1, V1) = Some (Inr ((t2, V2), ch2))"
    and i2: "pass_inv g L K0 t2 V2" and s2: "V1 \<subseteq> V2" and d2: "set ds \<subseteq> V2"
    and m2: "\<forall>u. defined_in t1 u \<longrightarrow> defined_in t2 u"
    and f2: "settled_from g t1 0 \<longrightarrow> \<not> ch2 \<and> t2 = t1"
    by auto
  have "pd_compute_deps (n1 + n2 + j) g (d # ds) (t, V) = Some (Inr ((t2, V2), ch1 \<or> ch2))" for j
  proof -
    have a: "pd_compute (n1 + n2 + j) g d (t, V) = Some (Inr ((t1, V1), ch1))"
      using r1 [of "n2 + j"] by (simp add: add.assoc)
    have b: "pd_compute_deps (n1 + n2 + j) g ds (t1, V1) = Some (Inr ((t2, V2), ch2))"
      using r2 [of "n1 + j"] by (simp add: ac_simps)
    show ?thesis by (simp add: a b)
  qed
  moreover have "V \<subseteq> V2" using s1 s2 by blast
  moreover have "set (d # ds) \<subseteq> V2" using d1 s2 d2 by auto
  moreover have "\<forall>u. defined_in t u \<longrightarrow> defined_in t2 u" using m1 m2 by blast
  moreover have "settled_from g t 0 \<longrightarrow> \<not> (ch1 \<or> ch2) \<and> t2 = t" using f1 f2 by auto
  ultimately show ?case using i2 by blast
qed

lemma pass_total:
  fixes rk :: "nat \<Rightarrow> nat"
  assumes dag: "acyclic_deps g rk" and mir: "mirrored_edges g"
  shows "x \<in> reachable g \<Longrightarrow> pass_inv g L K t V \<Longrightarrow>
      x = end_cfgpred g \<or> x \<in> V \<or> (\<exists>u \<in> set (outs g x). defined_in t u) \<Longrightarrow>
      \<exists>n t' V' ch. (\<forall>j. pd_compute (n + j) g x (t, V) = Some (Inr ((t', V'), ch))) \<and>
        pass_inv g L K t' V' \<and> V \<subseteq> V' \<and> x \<in> V' \<and>
        (\<forall>u. defined_in t u \<longrightarrow> defined_in t' u) \<and> (settled_from g t 0 \<longrightarrow> \<not> ch \<and> t' = t)"
proof (induction "rk x" arbitrary: x K t V rule: less_induct)
  case less
  note d = pass_invD [OF less.prems(2)]
  note inv = d(1)
  show ?case
  proof (cases "x \<in> V")
    case True
    have "pd_compute (1 + j) g x (t, V) = Some (Inr ((t, V), False))" for j
      using True by simp
    with less.prems(2) True show ?thesis by blast
  next
    case False
    from False d(2) have xK: "x \<notin> K" by auto
    have rkd: "rk y < rk x" if "y \<in> set (ins g x)" for y
      using dag less.prems(1) that unfolding acyclic_deps_def by blast
    have xo: "x \<in> set (outs g y)" if "y \<in> set (ins g x)" for y
      using mir less.prems(1) that unfolding mirrored_edges_def by blast
    have node: "\<exists>n t' V' ch. (\<forall>j. pd_compute (n + j) g y (t0, V0) = Some (Inr ((t', V'), ch))) \<and>
        pass_inv g L (insert x K) t' V' \<and> V0 \<subseteq> V' \<and> y \<in> V' \<and>
        (\<forall>u. defined_in t0 u \<longrightarrow> defined_in t' u) \<and> (settled_from g t0 0 \<longrightarrow> \<not> ch \<and> t' = t0)"
      if "y \<in> set (ins g x)" "pass_inv g L (insert x K) t0 V0"
        "y \<in> V0 \<or> (\<exists>u \<in> set (outs g y). defined_in t0 u)" for y t0 V0
    proof -
      have a: "rk y < rk x" by (rule rkd [OF that(1)])
      have b: "y \<in> reachable g" by (rule reachable_step [OF less.prems(1) that(1)])
      have c: "y = end_cfgpred g \<or> y \<in> V0 \<or> (\<exists>u \<in> set (outs g y). defined_in t0 u)"
        using that(3) by blast
      show ?thesis by (rule less.hyps [OF a b that(2) c])
    qed
    have isr: "is_root_irn t x = Inr (x = end_cfgpred g)" by (rule is_root_irn_inv [OF inv])
    show ?thesis
    proof (cases "x = end_cfgpred g")
      case True
      have pi1: "pass_inv g L (insert x K) t (insert x V)"
        using pass_inv_root [OF less.prems(2)] False True by simp
      have pre: "\<forall>y \<in> set (ins g x). \<exists>u \<in> set (outs g y). defined_in t u"
        using xo solver_invD(7) [OF inv] True by blast
      from pass_deps_total [of "ins g x" g L "insert x K", OF node pi1 pre]
      obtain n2 t2 V2 ch2 where
        r2: "\<And>j. pd_compute_deps (n2 + j) g (ins g x) (t, insert x V) = Some (Inr ((t2, V2), ch2))"
        and i2: "pass_inv g L (insert x K) t2 V2" and s2: "insert x V \<subseteq> V2"
        and d2: "set (ins g x) \<subseteq> V2"
        and m2: "\<forall>u. defined_in t u \<longrightarrow> defined_in t2 u"
        and f2: "settled_from g t 0 \<longrightarrow> \<not> ch2 \<and> t2 = t"
        by blast
      have "pd_compute (Suc n2 + j) g x (t, V) = Some (Inr ((t2, V2), ch2))" for j
        using False isr True r2 [of j] by simp
      moreover have "pass_inv g L K t2 V2" by (rule pass_inv_pop [OF i2 xK d2])
      moreover have "V \<subseteq> V2" "x \<in> V2" using s2 by auto
      ultimately show ?thesis using m2 f2 by blast
    next
      case xr: False
      with less.prems(3) False have u: "\<exists>u \<in> set (outs g x). defined_in t u" by simp
      from pass_step [OF inv mir less.prems(1) xr u] obtain n1 t1 ch1 where
        r1: "\<And>j. pd_compute_node (n1 + j) g x t = Some (Inr (t1, ch1))"
        and inv1: "solver_inv g t1" and dx1: "defined_in t1 x"
        and m1: "\<forall>u. defined_in t u \<longrightarrow> defined_in t1 u"
        and ix1: "index_of t1 = index_of t" and sx1: "settled g t1 x"
        and st1: "settled g t x \<longrightarrow> t1 = t \<and> \<not> ch1"
        and fr1: "\<forall>y \<in> reachable g. index_of t x < index_of t y \<and> settled g t y \<longrightarrow> settled g t1 y"
        by blast
      have st1': "settled g t x \<longrightarrow> t1 = t" using st1 by simp
      have pi1: "pass_inv g L (insert x K) t1 (insert x V)"
        by (rule pass_inv_step [OF less.prems(2,1) False xr inv1 ix1 sx1 st1' fr1 dx1 m1])
      have pre: "\<forall>y \<in> set (ins g x). \<exists>u \<in> set (outs g y). defined_in t1 u"
        using xo dx1 by blast
      from pass_deps_total [of "ins g x" g L "insert x K", OF node pi1 pre]
      obtain n2 t2 V2 ch2 where
        r2: "\<And>j. pd_compute_deps (n2 + j) g (ins g x) (t1, insert x V) = Some (Inr ((t2, V2), ch2))"
        and i2: "pass_inv g L (insert x K) t2 V2" and s2: "insert x V \<subseteq> V2"
        and d2: "set (ins g x) \<subseteq> V2"
        and m2: "\<forall>u. defined_in t1 u \<longrightarrow> defined_in t2 u"
        and f2: "settled_from g t1 0 \<longrightarrow> \<not> ch2 \<and> t2 = t1"
        by blast
      have "pd_compute (Suc (n1 + n2) + j) g x (t, V) = Some (Inr ((t2, V2), ch1 \<or> ch2))" for j
      proof -
        have a: "pd_compute_node (n1 + n2 + j) g x t = Some (Inr (t1, ch1))"
          using r1 [of "n2 + j"] by (simp add: add.assoc)
        have b: "pd_compute_deps (n1 + n2 + j) g (ins g x) (t1, insert x V)
                   = Some (Inr ((t2, V2), ch2))"
          using r2 [of "n1 + j"] by (simp add: ac_simps)
        show ?thesis using False isr xr a b by simp
      qed
      moreover have "pass_inv g L K t2 V2" by (rule pass_inv_pop [OF i2 xK d2])
      moreover have "V \<subseteq> V2" "x \<in> V2" using s2 by auto
      moreover have "\<forall>u. defined_in t u \<longrightarrow> defined_in t2 u" using m1 m2 by blast
      moreover have "settled_from g t 0 \<longrightarrow> \<not> (ch1 \<or> ch2) \<and> t2 = t"
      proof
        assume a: "settled_from g t 0"
        have "0 \<le> index_of t x" by (rule solver_inv_index_range [OF inv less.prems(1)])
        with a less.prems(1) xr have "settled g t x" unfolding settled_from_def by blast
        with st1 have "t1 = t" "\<not> ch1" by simp_all
        with a f2 show "\<not> (ch1 \<or> ch2) \<and> t2 = t" by simp
      qed
      ultimately show ?thesis by blast
    qed
  qed
qed

section \<open>The fixpoint loop ends\<close>

lemma post_inv_solver_inv:
  assumes pi: "post_inv g {} t (reachable g) c"
  shows "solver_inv g t \<and> settled_from g t (int (card (reachable g)))"
proof -
  note d = post_invD [OF pi]
  let ?r = "end_cfgpred g"
  have dm: "dom (phase t) = reachable g" using d(6) reachable_root [of g] by auto
  have img: "index_of t ` reachable g = {0..<c}" using d(8) by simp
  have inj: "inj_on (index_of t) (reachable g)" using d(9) by simp
  have "card (index_of t ` reachable g) = card (reachable g)" by (rule card_image [OF inj])
  with img have cc: "c = int (card (reachable g))" using d(5) by simp
  have rec: "\<And>x dd. phase t x = Some dd \<Longrightarrow>
      irn dd = Some x \<and> children dd = [] \<and> parent dd = None \<and> (defined dd \<longleftrightarrow> x = ?r)"
    using d(7) by blast
  have pa: "parent_of t x = None" for x
    by (cases "phase t x") (simp_all add: parent_of_def rec)
  have ch: "children_of t x = []" for x
    by (cases "phase t x") (simp_all add: children_of_def rec)
  have de: "defined_in t x \<longleftrightarrow> x = ?r" if "x \<in> reachable g" for x
  proof -
    from that dm obtain dd where "phase t x = Some dd" by blast
    with rec [OF this] show ?thesis by (simp add: defined_in_def)
  qed
  have inv: "solver_inv g t"
    unfolding solver_inv_def
  proof (intro conjI)
    show "root t = ?r" by (rule d(4))
    show "dom (phase t) = reachable g" by (rule dm)
    show "finite (reachable g)" by (rule d(1))
    show "\<forall>x d. phase t x = Some d \<longrightarrow> irn d = Some x" using rec by blast
    show "inj_on (index_of t) (reachable g)" by (rule inj)
    show "\<forall>x \<in> reachable g. \<forall>d \<in> set (ins g x). index_of t d < index_of t x"
      using d(10) by simp
    show "defined_in t ?r" using de [OF reachable_root] by simp
    show "parent_of t ?r = None" by (rule pa)
    show "\<forall>x \<in> reachable g. \<not> defined_in t x \<longrightarrow> parent_of t x = None" by (simp add: pa)
    show "\<forall>x \<in> reachable g. defined_in t x \<and> x \<noteq> ?r \<longrightarrow>
        (\<exists>p \<in> reachable g. parent_of t x = Some p \<and> defined_in t p \<and> index_of t x < index_of t p)"
      using de by blast
    show "\<forall>x \<in> reachable g. distinct (children_of t x) \<and>
        set (children_of t x) = {c \<in> reachable g. parent_of t c = Some x}"
      by (simp add: pa ch)
    show "index_of t ` reachable g = {0..<int (card (reachable g))}" using img cc by simp
  qed
  have "settled_from g t (int (card (reachable g)))"
    unfolding settled_from_def
  proof (intro ballI impI)
    fix y assume y: "y \<in> reachable g"
      and h: "y \<noteq> ?r \<and> int (card (reachable g)) \<le> index_of t y"
    from solver_inv_index_range(2) [OF inv y] h show "settled g t y" by simp
  qed
  with inv show ?thesis by simp
qed

lemma pass_root_total:
  fixes rk :: "nat \<Rightarrow> nat"
  assumes dag: "acyclic_deps g rk" and mir: "mirrored_edges g"
    and inv: "solver_inv g t" and up: "settled_from g t (L + 1)"
  shows "\<exists>n t' V' ch. (\<forall>j. pd_compute (n + j) g (end_cfgpred g) (t, {}) = Some (Inr ((t', V'), ch))) \<and>
     solver_inv g t' \<and> settled_from g t' L \<and> (\<forall>y \<in> reachable g. defined_in t' y) \<and>
     (settled_from g t 0 \<longrightarrow> \<not> ch)"
proof -
  have pi: "pass_inv g L {} t {}"
    unfolding pass_inv_def using inv up by simp
  from pass_total [OF dag mir reachable_root pi] obtain n t' V' ch where
    r: "\<And>j. pd_compute (n + j) g (end_cfgpred g) (t, {}) = Some (Inr ((t', V'), ch))"
    and pi': "pass_inv g L {} t' V'" and rV: "end_cfgpred g \<in> V'"
    and f: "settled_from g t 0 \<longrightarrow> \<not> ch \<and> t' = t"
    by blast
  note d = pass_invD [OF pi']
  have "\<forall>x \<in> V'. set (ins g x) \<subseteq> V'" using d(6) by simp
  with rV have "reachable g \<subseteq> V'" by (rule reachable_least)
  with d(3) have V: "V' = reachable g" by auto
  have "settled_from g t' L"
    unfolding settled_from_def
  proof (intro ballI impI)
    fix y assume y: "y \<in> reachable g" and h: "y \<noteq> end_cfgpred g \<and> L \<le> index_of t' y"
    show "settled g t' y"
    proof (cases "index_of t' y = L")
      case True
      with d(5) y h V show ?thesis by blast
    next
      case False
      with h have "L + 1 \<le> index_of t' y" by simp
      with d(4) y h show ?thesis unfolding settled_from_def by blast
    qed
  qed
  moreover have "\<forall>y \<in> reachable g. defined_in t' y" using d(7) V by simp
  ultimately show ?thesis using r d(1) f by blast
qed

lemma fixpoint_total:
  fixes rk :: "nat \<Rightarrow> nat"
  assumes dag: "acyclic_deps g rk" and mir: "mirrored_edges g"
  shows "solver_inv g t \<Longrightarrow> settled_from g t (int L) \<Longrightarrow>
     \<exists>n t'. (\<forall>i j. pd_fixpoint (Suc L + i) (n + j) g (end_cfgpred g) t = Some (Inr t')) \<and>
       solver_inv g t' \<and> (\<forall>y \<in> reachable g. defined_in t' y)"
proof (induction L arbitrary: t)
  case 0
  have up: "settled_from g t (-1 + 1)" using 0(2) by simp
  from pass_root_total [OF dag mir 0(1) up] obtain n t' V' ch where
    r0: "\<And>j. pd_compute (n + j) g (end_cfgpred g) (t, {}) = Some (Inr ((t', V'), ch))"
    and t': "solver_inv g t'" "\<forall>y \<in> reachable g. defined_in t' y"
    and f: "settled_from g t 0 \<longrightarrow> \<not> ch"
    by blast
  from f 0(2) have "\<not> ch" by simp
  with r0 have r: "\<And>j. pd_compute (n + j) g (end_cfgpred g) (t, {}) = Some (Inr ((t', V'), False))"
    by simp
  have "pd_fixpoint (Suc 0 + i) (n + j) g (end_cfgpred g) t = Some (Inr t')" for i j
    using r [of j] by simp
  with t' show ?case by blast
next
  case (Suc L)
  have up: "settled_from g t (int L + 1)" using Suc.prems(2) by (simp add: add.commute)
  from pass_root_total [OF dag mir Suc.prems(1) up] obtain n t1 V1 ch where
    r: "\<And>j. pd_compute (n + j) g (end_cfgpred g) (t, {}) = Some (Inr ((t1, V1), ch))"
    and t1: "solver_inv g t1" "settled_from g t1 (int L)" "\<forall>y \<in> reachable g. defined_in t1 y"
    by blast
  show ?case
  proof (cases ch)
    case False
    have "pd_fixpoint (Suc (Suc L) + i) (n + j) g (end_cfgpred g) t = Some (Inr t1)" for i j
      using r [of j] False by simp
    with t1 show ?thesis by blast
  next
    case True
    from Suc.IH [OF t1(1,2)] obtain n2 t' where
      r2: "\<And>i j. pd_fixpoint (Suc L + i) (n2 + j) g (end_cfgpred g) t1 = Some (Inr t')"
      and t': "solver_inv g t'" "\<forall>y \<in> reachable g. defined_in t' y"
      by blast
    have "pd_fixpoint (Suc (Suc L) + i) (n + n2 + j) g (end_cfgpred g) t = Some (Inr t')" for i j
    proof -
      have a: "pd_compute (n + n2 + j) g (end_cfgpred g) (t, {}) = Some (Inr ((t1, V1), True))"
        using r [of "n2 + j"] True by (simp add: add.assoc)
      have b: "pd_fixpoint (Suc L + i) (n + n2 + j) g (end_cfgpred g) t1 = Some (Inr t')"
        using r2 [of i "n + j"] by (simp add: ac_simps)
      show ?thesis using a b by simp
    qed
    with t' show ?thesis by blast
  qed
qed

section \<open>The tree indexer\<close>

lemma same_links_refl: "same_links t t"
  by (simp add: same_links_def)

lemma same_links_trans: "same_links t t1 \<Longrightarrow> same_links t1 t2 \<Longrightarrow> same_links t t2"
  by (simp add: same_links_def)

lemma same_links_strip:
  "same_links t t' \<Longrightarrow> map_option strip_idx (phase t' y) = map_option strip_idx (phase t y)"
  by (simp add: same_links_def)

lemma same_links_None:
  assumes "same_links t t'"
  shows "phase t' y = None \<longleftrightarrow> phase t y = None"
  using same_links_strip [OF assms, of y] by (metis map_option_is_None)

lemma same_links_fields:
  assumes sl: "same_links t t'" and d: "phase t y = Some d" and d': "phase t' y = Some d'"
  shows "irn d' = irn d" "defined d' = defined d" "children d' = children d" "parent d' = parent d"
proof -
  from same_links_strip [OF sl, of y] d d' have e: "strip_idx d' = strip_idx d" by simp
  have "irn (strip_idx d') = irn d'" "defined (strip_idx d') = defined d'"
    "children (strip_idx d') = children d'" "parent (strip_idx d') = parent d'"
    "irn (strip_idx d) = irn d" "defined (strip_idx d) = defined d"
    "children (strip_idx d) = children d" "parent (strip_idx d) = parent d"
    by (simp_all add: strip_idx_def)
  with e show "irn d' = irn d" "defined d' = defined d" "children d' = children d"
    "parent d' = parent d" by simp_all
qed

lemma same_links_accessors:
  assumes sl: "same_links t t'"
  shows "children_of t' = children_of t" "parent_of t' = parent_of t"
    "defined_in t' = defined_in t" "dom (phase t') = dom (phase t)" "root t' = root t"
proof -
  have c: "children_of t' y = children_of t y \<and> parent_of t' y = parent_of t y \<and>
           defined_in t' y = defined_in t y" for y
  proof (cases "phase t y")
    case None
    with same_links_None [OF sl, of y] show ?thesis
      by (simp add: children_of_def parent_of_def defined_in_def)
  next
    case (Some d)
    with same_links_None [OF sl, of y] obtain d' where d': "phase t' y = Some d'" by auto
    from same_links_fields [OF sl Some d'] Some d' show ?thesis
      by (simp add: children_of_def parent_of_def defined_in_def)
  qed
  show "children_of t' = children_of t" "parent_of t' = parent_of t" "defined_in t' = defined_in t"
    using c by (simp_all add: fun_eq_iff)
  show "dom (phase t') = dom (phase t)" unfolding dom_def using same_links_None [OF sl] by simp
  show "root t' = root t" using sl by (simp add: same_links_def)
qed

lemma same_links_descendants:
  "same_links t t' \<Longrightarrow> descendants t' = descendants t"
  by (simp add: descendants_def child_rel_def same_links_accessors fun_eq_iff)

lemma same_links_tree_shape:
  "same_links t t' \<Longrightarrow> tree_shape \<rho> t \<Longrightarrow> tree_shape \<rho> t'"
  unfolding tree_shape_def
  by (simp add: same_links_accessors same_links_None)

lemma same_links_put_index:
  "phase t p = Some d \<Longrightarrow> same_links t (put_node p (d\<lparr>index := c\<rparr>) t)"
  by (simp add: same_links_def put_node_def strip_idx_def)

lemma same_links_put_max_index:
  "phase t p = Some d \<Longrightarrow> same_links t (put_node p (d\<lparr>max_index := c\<rparr>) t)"
  by (simp add: same_links_def put_node_def strip_idx_def)

lemma descendants_self: "x \<in> descendants t x"
  by (simp add: descendants_def)

lemma descendants_child:
  "c \<in> set (children_of t x) \<Longrightarrow> y \<in> descendants t c \<Longrightarrow> y \<in> descendants t x"
  unfolding descendants_def child_rel_def
  by (auto intro: converse_rtrancl_into_rtrancl)

lemma descendants_trans:
  "y \<in> descendants t x \<Longrightarrow> z \<in> descendants t y \<Longrightarrow> z \<in> descendants t x"
  unfolding descendants_def by auto

lemma descendants_step:
  assumes "y \<in> descendants t x" and "c \<in> set (children_of t y)"
  shows "c \<in> descendants t x"
proof -
  from assms(2) have "c \<in> descendants t y" by (rule descendants_child) (rule descendants_self)
  with assms(1) show ?thesis by (rule descendants_trans)
qed

lemma descendants_cases:
  assumes "y \<in> descendants t x"
  shows "y = x \<or> (\<exists>c \<in> set (children_of t x). y \<in> descendants t c)"
proof -
  from assms have "(x, y) \<in> (child_rel t)\<^sup>*" by (simp add: descendants_def)
  then show ?thesis
  proof (cases rule: converse_rtranclE)
    case base
    then show ?thesis by simp
  next
    case (step c)
    then show ?thesis by (auto simp: descendants_def child_rel_def)
  qed
qed

lemma descendants_rank:
  assumes ts: "tree_shape \<rho> t" and y: "y \<in> descendants t x"
  shows "\<rho> y \<le> \<rho> x"
proof -
  from y have "(x, y) \<in> (child_rel t)\<^sup>*" by (simp add: descendants_def)
  then show ?thesis
  proof (induction rule: rtrancl_induct)
    case base
    show ?case by simp
  next
    case (step y z)
    from step(2) have "z \<in> set (children_of t y)" by (simp add: child_rel_def)
    with ts have "\<rho> z < \<rho> y" unfolding tree_shape_def by blast
    with step(3) show ?case by simp
  qed
qed

lemma descendants_comparable:
  assumes ts: "tree_shape \<rho> t" and ya: "y \<in> descendants t a" and yb: "y \<in> descendants t b"
  shows "a \<in> descendants t b \<or> b \<in> descendants t a"
proof -
  from ya have "(a, y) \<in> (child_rel t)\<^sup>*" by (simp add: descendants_def)
  then show ?thesis using yb
  proof (induction rule: rtrancl_induct)
    case base
    then show ?case by simp
  next
    case (step y z)
    from step(2) have zy: "z \<in> set (children_of t y)" by (simp add: child_rel_def)
    with ts have py: "parent_of t z = Some y" unfolding tree_shape_def by blast
    from step(4) have "(b, z) \<in> (child_rel t)\<^sup>*" by (simp add: descendants_def)
    then show ?case
    proof (cases rule: rtranclE)
      case base
      with step(1,2) have "(a, b) \<in> (child_rel t)\<^sup>*" by auto
      then show ?thesis by (simp add: descendants_def)
    next
      case (step w)
      from step(2) have "z \<in> set (children_of t w)" by (simp add: child_rel_def)
      with ts have "parent_of t z = Some w" unfolding tree_shape_def by blast
      with py have "w = y" by simp
      with step(1) have "y \<in> descendants t b" by (simp add: descendants_def)
      then show ?thesis by (rule \<open>y \<in> descendants t b \<Longrightarrow> a \<in> descendants t b \<or> b \<in> descendants t a\<close>)
    qed
  qed
qed

lemma siblings_disjoint:
  assumes ts: "tree_shape \<rho> t" and c1: "c1 \<in> set (children_of t p)"
    and c2: "c2 \<in> set (children_of t p)" and ne: "c1 \<noteq> c2"
    and y1: "y \<in> descendants t c1"
  shows "y \<notin> descendants t c2"
proof
  assume y2: "y \<in> descendants t c2"
  have no: "\<not> a \<in> descendants t b"
    if a: "a \<in> set (children_of t p)" and b: "b \<in> set (children_of t p)" and ab: "a \<noteq> b" for a b
  proof
    assume "a \<in> descendants t b"
    then have "(b, a) \<in> (child_rel t)\<^sup>*" by (simp add: descendants_def)
    then show False
    proof (cases rule: rtranclE)
      case base
      with ab show False by simp
    next
      case (step w)
      from step(2) have "a \<in> set (children_of t w)" by (simp add: child_rel_def)
      with ts have "parent_of t a = Some w" unfolding tree_shape_def by blast
      moreover from ts a have "parent_of t a = Some p" unfolding tree_shape_def by blast
      ultimately have "w = p" by simp
      with step(1) have "p \<in> descendants t b" by (simp add: descendants_def)
      from descendants_rank [OF ts this] have "\<rho> p \<le> \<rho> b" .
      moreover from ts b have "\<rho> b < \<rho> p" unfolding tree_shape_def by blast
      ultimately show False by simp
    qed
  qed
  from descendants_comparable [OF ts y1 y2] no [OF c1 c2 ne] no [OF c2 c1] ne
  show False by auto
qed

lemma nested_Un: "nested t A \<Longrightarrow> nested t B \<Longrightarrow> nested t (A \<union> B)"
  unfolding nested_def by blast

lemma nested_frame:
  assumes n: "nested t1 S" and cl: "\<forall>y \<in> S. descendants t1 y \<subseteq> S"
    and eq: "\<forall>y \<in> S. phase t2 y = phase t1 y" and sl: "same_links t1 t2"
  shows "nested t2 S"
proof -
  have ix: "index_of t2 y = index_of t1 y" "max_index_of t2 y = max_index_of t1 y" if "y \<in> S" for y
    using eq that by (simp_all add: index_of_def max_index_of_def)
  have key: "index_of t2 y \<le> index_of t2 z \<and> index_of t2 z \<le> max_index_of t2 z \<and>
           max_index_of t2 z \<le> max_index_of t2 y"
    if y: "y \<in> S" and z: "z \<in> descendants t1 y" for y z
  proof -
    from y z cl have zS: "z \<in> S" by blast
    from n y z have "index_of t1 y \<le> index_of t1 z \<and> index_of t1 z \<le> max_index_of t1 z \<and>
           max_index_of t1 z \<le> max_index_of t1 y" unfolding nested_def by blast
    then show ?thesis using ix [OF y] ix [OF zS] by simp
  qed
  have self: "index_of t2 y \<le> max_index_of t2 y" if "y \<in> S" for y
    using n that ix [OF that] unfolding nested_def by simp
  show ?thesis
    unfolding nested_def same_links_descendants [OF sl]
    using key self by blast
qed


lemma dom_postD:
  assumes "dom_post t D c t' c'"
  shows "same_links t t'" "\<forall>y. y \<notin> D \<longrightarrow> phase t' y = phase t y" "c \<le> c'"
    "\<forall>y \<in> D. c \<le> index_of t' y \<and> max_index_of t' y \<le> c'" "nested t' D"
  using assms unfolding dom_post_def by - (elim conjE, assumption)+

lemma tree_shape_child:
  assumes "tree_shape \<rho> t" and "q \<in> set (children_of t p)"
  shows "phase t q \<noteq> None" "parent_of t q = Some p" "\<rho> q < \<rho> p"
  using assms unfolding tree_shape_def by blast+

lemma sibling_intervals_cong:
  "\<forall>q \<in> set qs. index_of t2 q = index_of t1 q \<and> max_index_of t2 q = max_index_of t1 q \<Longrightarrow>
   sibling_intervals t2 c qs m = sibling_intervals t1 c qs m"
  by (induction qs arbitrary: c) simp_all

lemma dom_list_total:
  assumes node: "\<And>q t c. q \<in> set cs \<Longrightarrow> tree_shape \<rho> t \<Longrightarrow> phase t q \<noteq> None \<Longrightarrow>
      \<exists>n t' c'. (\<forall>j. pd_compute_indices_dom (n + j) q t c = Some (Inr (t', c'))) \<and>
        dom_post t (descendants t q) c t' c' \<and> dom_exact t' (descendants t q) \<and>
        index_of t' q = c \<and> max_index_of t' q = c'"
  shows "tree_shape \<rho> t \<Longrightarrow> distinct cs \<Longrightarrow> set cs \<subseteq> set (children_of t p) \<Longrightarrow>
      \<exists>n t' c'. (\<forall>j. pd_compute_indices_dom_list (n + j) cs t c = Some (Inr (t', c'))) \<and>
        dom_post t (\<Union>q \<in> set cs. descendants t q) c t' c' \<and>
        (\<forall>y \<in> (\<Union>q \<in> set cs. descendants t q). c + 1 \<le> index_of t' y) \<and>
        dom_exact t' (\<Union>q \<in> set cs. descendants t q) \<and> sibling_intervals t' c cs c'"
  using node
proof (induction cs arbitrary: t c)
  case Nil
  show ?case
    by (intro exI [of _ 0] exI [of _ t] exI [of _ c])
       (simp add: dom_post_def same_links_refl nested_def dom_exact_def)
next
  case (Cons q cs)
  note ts = Cons.prems(1)
  from Cons.prems(3) have qc: "q \<in> set (children_of t p)" by simp
  from Cons.prems(4) [OF _ ts tree_shape_child(1) [OF ts qc], of "c + 1"] obtain n1 t1 c1 where
    r1: "\<And>j. pd_compute_indices_dom (n1 + j) q t (c + 1) = Some (Inr (t1, c1))"
    and p1: "dom_post t (descendants t q) (c + 1) t1 c1"
    and x1: "dom_exact t1 (descendants t q)"
    and iq: "index_of t1 q = c + 1" "max_index_of t1 q = c1"
    by auto
  note d1 = dom_postD [OF p1]
  note acc1 = same_links_accessors [OF d1(1)]
  note desc1 = same_links_descendants [OF d1(1)]
  have ts1: "tree_shape \<rho> t1" by (rule same_links_tree_shape [OF d1(1) ts])
  have sub1: "set cs \<subseteq> set (children_of t1 p)" using Cons.prems(3) by (simp add: acc1)
  from Cons.prems(2) have dcs: "distinct cs" by simp
  have "\<exists>n t' c'. (\<forall>j. pd_compute_indices_dom_list (n + j) cs t1 c1 = Some (Inr (t', c'))) \<and>
        dom_post t1 (\<Union>q \<in> set cs. descendants t1 q) c1 t' c' \<and>
        (\<forall>y \<in> (\<Union>q \<in> set cs. descendants t1 q). c1 + 1 \<le> index_of t' y) \<and>
        dom_exact t' (\<Union>q \<in> set cs. descendants t1 q) \<and> sibling_intervals t' c1 cs c'"
    by (rule Cons.IH [OF ts1 dcs sub1]) (rule Cons.prems(4), simp_all)
  then obtain n2 t2 c2 where
    r2: "\<And>j. pd_compute_indices_dom_list (n2 + j) cs t1 c1 = Some (Inr (t2, c2))"
    and p2: "dom_post t1 (\<Union>q \<in> set cs. descendants t q) c1 t2 c2"
    and lo2: "\<forall>y \<in> (\<Union>q \<in> set cs. descendants t q). c1 + 1 \<le> index_of t2 y"
    and x2: "dom_exact t2 (\<Union>q \<in> set cs. descendants t q)"
    and si2: "sibling_intervals t2 c1 cs c2"
    unfolding desc1 by blast
  note d2 = dom_postD [OF p2]
  define D1 where "D1 = descendants t q"
  define D2 where "D2 = (\<Union>q \<in> set cs. descendants t q)"
  have D: "(\<Union>q \<in> set (q # cs). descendants t q) = D1 \<union> D2" by (simp add: D1_def D2_def)
  note e1 = d1 [folded D1_def] and e2 = d2 [folded D2_def] and lo2' = lo2 [folded D2_def]
  have disj: "y \<notin> D2" if "y \<in> D1" for y
  proof
    assume "y \<in> D2"
    then obtain q' where q': "q' \<in> set cs" "y \<in> descendants t q'" by (auto simp: D2_def)
    from q'(1) Cons.prems(2) have ne: "q \<noteq> q'" by auto
    from q'(1) Cons.prems(3) have q'c: "q' \<in> set (children_of t p)" by auto
    from siblings_disjoint [OF ts qc q'c ne] that q'(2) show False by (simp add: D1_def)
  qed
  have eq1: "phase t2 y = phase t1 y" if "y \<in> D1" for y
    using e2(2) disj [OF that] by blast
  have ix1: "index_of t2 y = index_of t1 y" "max_index_of t2 y = max_index_of t1 y"
    if "y \<in> D1" for y
    using eq1 [OF that] by (simp_all add: index_of_def max_index_of_def)
  have run: "pd_compute_indices_dom_list (n1 + n2 + j) (q # cs) t c = Some (Inr (t2, c2))" for j
  proof -
    have a: "pd_compute_indices_dom (n1 + n2 + j) q t (c + 1) = Some (Inr (t1, c1))"
      using r1 [of "n2 + j"] by (simp add: add.assoc)
    have b: "pd_compute_indices_dom_list (n1 + n2 + j) cs t1 c1 = Some (Inr (t2, c2))"
      using r2 [of "n1 + j"] by (simp add: ac_simps)
    show ?thesis by (simp add: a b)
  qed
  have g1: "same_links t t2" by (rule same_links_trans [OF d1(1) d2(1)])
  have g2: "\<forall>y. y \<notin> D1 \<union> D2 \<longrightarrow> phase t2 y = phase t y"
    using e1(2) e2(2) by simp
  have g3: "c \<le> c2" using d1(3) d2(3) by simp
  have lo: "c + 1 \<le> index_of t2 y" if "y \<in> D1 \<union> D2" for y
  proof (cases "y \<in> D1")
    case True
    with e1(4) have "c + 1 \<le> index_of t1 y" by blast
    with ix1 [OF True] show ?thesis by simp
  next
    case False
    with that have "y \<in> D2" by simp
    with lo2' have "c1 + 1 \<le> index_of t2 y" by blast
    with d1(3) show ?thesis by simp
  qed
  have hi: "max_index_of t2 y \<le> c2" if "y \<in> D1 \<union> D2" for y
  proof (cases "y \<in> D1")
    case True
    with e1(4) have "max_index_of t1 y \<le> c1" by blast
    with ix1 [OF True] d2(3) show ?thesis by simp
  next
    case False
    with that have "y \<in> D2" by simp
    with e2(4) show ?thesis by blast
  qed
  have g4: "\<forall>y \<in> D1 \<union> D2. c \<le> index_of t2 y \<and> max_index_of t2 y \<le> c2"
  proof
    fix y assume y: "y \<in> D1 \<union> D2"
    from lo [OF y] hi [OF y] show "c \<le> index_of t2 y \<and> max_index_of t2 y \<le> c2" by simp
  qed
  have n1: "nested t2 D1"
  proof (rule nested_frame [OF _ _ _ d2(1)])
    show "nested t1 D1" by (rule e1(5))
    show "\<forall>y \<in> D1. descendants t1 y \<subseteq> D1"
      unfolding desc1 D1_def using descendants_trans by blast
    show "\<forall>y \<in> D1. phase t2 y = phase t1 y" using eq1 by simp
  qed
  have n2: "nested t2 D2" by (rule e2(5))
  have g5: "nested t2 (D1 \<union> D2)" by (rule nested_Un [OF n1 n2])
  have g6: "dom_post t (D1 \<union> D2) c t2 c2"
    unfolding dom_post_def by (intro conjI g1 g2 g3 g4 g5)
  have g7: "\<forall>y \<in> D1 \<union> D2. c + 1 \<le> index_of t2 y" using lo by simp
  have qD1: "q \<in> D1" by (simp add: D1_def descendants_self)
  have g8: "sibling_intervals t2 c (q # cs) c2"
    using si2 iq ix1 [OF qD1] by simp
  have cl1: "set (children_of t1 y) \<subseteq> D1" if "y \<in> D1" for y
    using that unfolding D1_def acc1 by (auto intro: descendants_step)
  have pa1: "preorder_at t2 y" if y: "y \<in> D1" for y
  proof -
    from x1 [folded D1_def] y have p: "preorder_at t1 y" unfolding dom_exact_def by blast
    have "\<forall>z \<in> set (children_of t1 y).
        index_of t2 z = index_of t1 z \<and> max_index_of t2 z = max_index_of t1 z"
      using cl1 [OF y] ix1 by blast
    note e = sibling_intervals_cong [OF this]
    from p show ?thesis
      unfolding preorder_at_def same_links_accessors(1) [OF d2(1)] ix1 [OF y] e .
  qed
  note x1' = x1 [folded D1_def] and x2' = x2 [folded D2_def]
  have pa2: "preorder_at t2 y" if "y \<in> D2" for y
    using x2' that unfolding dom_exact_def by blast
  have sep: "z \<in> descendants t2 y"
    if y: "y \<in> D1 \<union> D2" and z: "z \<in> D1 \<union> D2"
      and b: "index_of t2 y \<le> index_of t2 z" "index_of t2 z \<le> max_index_of t2 y" for y z
  proof -
    have hi1: "max_index_of t2 w \<le> c1" "index_of t2 w \<le> c1" if w: "w \<in> D1" for w
    proof -
      from e1(4) w have m: "max_index_of t1 w \<le> c1" by blast
      from e1(5) w have "index_of t1 w \<le> max_index_of t1 w" unfolding nested_def by blast
      with m ix1 [OF w] show "max_index_of t2 w \<le> c1" "index_of t2 w \<le> c1" by simp_all
    qed
    have lo2'': "c1 + 1 \<le> index_of t2 w" if "w \<in> D2" for w using lo2' that by blast
    show ?thesis
    proof (cases "y \<in> D1")
      case yD: True
      show ?thesis
      proof (cases "z \<in> D1")
        case True
        from b ix1 [OF yD] ix1 [OF True]
        have "index_of t1 y \<le> index_of t1 z" "index_of t1 z \<le> max_index_of t1 y" by simp_all
        with x1' yD True have "z \<in> descendants t1 y"
          unfolding dom_exact_def by blast
        then show ?thesis by (simp add: same_links_descendants [OF d2(1)])
      next
        case False
        with z have "z \<in> D2" by simp
        from lo2'' [OF this] hi1(1) [OF yD] b show ?thesis by simp
      qed
    next
      case False
      with y have yD: "y \<in> D2" by simp
      show ?thesis
      proof (cases "z \<in> D1")
        case True
        from lo2'' [OF yD] hi1(2) [OF True] b show ?thesis by simp
      next
        case False
        with z have "z \<in> D2" by simp
        with x2' yD b show ?thesis unfolding dom_exact_def by blast
      qed
    qed
  qed
  have g9: "dom_exact t2 (D1 \<union> D2)"
    unfolding dom_exact_def
  proof (intro conjI ballI impI)
    fix y assume "y \<in> D1 \<union> D2"
    then show "preorder_at t2 y" using pa1 pa2 by blast
  next
    fix y z assume "y \<in> D1 \<union> D2" "z \<in> D1 \<union> D2"
      and "index_of t2 y \<le> index_of t2 z \<and> index_of t2 z \<le> max_index_of t2 y"
    then show "z \<in> descendants t2 y" using sep by blast
  qed
  have "\<forall>j. pd_compute_indices_dom_list (n1 + n2 + j) (q # cs) t c = Some (Inr (t2, c2))"
    using run by simp
  then show ?case unfolding D using g6 g7 g9 g8 by blast
qed


lemma descendants_unfold:
  "descendants t p = insert p (\<Union>q \<in> set (children_of t p). descendants t q)"
proof
  show "descendants t p \<subseteq> insert p (\<Union>q \<in> set (children_of t p). descendants t q)"
    using descendants_cases by blast
  show "insert p (\<Union>q \<in> set (children_of t p). descendants t q) \<subseteq> descendants t p"
    using descendants_self descendants_child by blast
qed

lemma dom_total:
  "tree_shape \<rho> t \<Longrightarrow> phase t p \<noteq> None \<Longrightarrow>
     \<exists>n t' c'. (\<forall>j. pd_compute_indices_dom (n + j) p t c = Some (Inr (t', c'))) \<and>
       dom_post t (descendants t p) c t' c' \<and> dom_exact t' (descendants t p) \<and>
       index_of t' p = c \<and> max_index_of t' p = c'"
proof (induction "\<rho> p" arbitrary: p t c rule: less_induct)
  case less
  note ts = less.prems(1)
  from less.prems(2) obtain d where d: "phase t p = Some d" by auto
  define t0 where "t0 = put_node p (d\<lparr>index := c\<rparr>) t"
  have sl0: "same_links t t0" unfolding t0_def by (rule same_links_put_index [OF d])
  note acc0 = same_links_accessors [OF sl0]
  note desc0 = same_links_descendants [OF sl0]
  have ts0: "tree_shape \<rho> t0" by (rule same_links_tree_shape [OF sl0 ts])
  have cs: "children d = children_of t0 p" using d by (simp add: acc0 children_of_def)
  define D where "D = (\<Union>q \<in> set (children_of t0 p). descendants t0 q)"
  have "\<exists>n t' c'. (\<forall>j. pd_compute_indices_dom_list (n + j) (children_of t0 p) t0 c
                         = Some (Inr (t', c'))) \<and>
        dom_post t0 (\<Union>q \<in> set (children_of t0 p). descendants t0 q) c t' c' \<and>
        (\<forall>y \<in> (\<Union>q \<in> set (children_of t0 p). descendants t0 q). c + 1 \<le> index_of t' y) \<and>
        dom_exact t' (\<Union>q \<in> set (children_of t0 p). descendants t0 q) \<and>
        sibling_intervals t' c (children_of t0 p) c'"
  proof (rule dom_list_total [where p = p and \<rho> = \<rho>, OF _ ts0])
    show "distinct (children_of t0 p)" using ts0 unfolding tree_shape_def by blast
    show "set (children_of t0 p) \<subseteq> set (children_of t0 p)" by simp
  next
    fix q t1 c1
    assume q: "q \<in> set (children_of t0 p)" and t1: "tree_shape \<rho> t1" "phase t1 q \<noteq> None"
    have "\<rho> q < \<rho> p" by (rule tree_shape_child(3) [OF ts0 q])
    then show "\<exists>n t' c'. (\<forall>j. pd_compute_indices_dom (n + j) q t1 c1 = Some (Inr (t', c'))) \<and>
        dom_post t1 (descendants t1 q) c1 t' c' \<and> dom_exact t' (descendants t1 q) \<and>
        index_of t' q = c1 \<and> max_index_of t' q = c'"
      using t1 by (rule less.hyps)
  qed
  then obtain n t1 c1 where
    r1: "\<And>j. pd_compute_indices_dom_list (n + j) (children_of t0 p) t0 c = Some (Inr (t1, c1))"
    and p1: "dom_post t0 D c t1 c1"
    and lo1: "\<forall>y \<in> D. c + 1 \<le> index_of t1 y"
    and x1: "dom_exact t1 D"
    and si1: "sibling_intervals t1 c (children_of t0 p) c1"
    unfolding D_def by blast
  note d1 = dom_postD [OF p1]
  have pD: "p \<notin> D"
  proof
    assume "p \<in> D"
    then obtain q where q: "q \<in> set (children_of t0 p)" "p \<in> descendants t0 q"
      by (auto simp: D_def)
    from descendants_rank [OF ts0 q(2)] tree_shape_child(3) [OF ts0 q(1)] show False by simp
  qed
  have ph1: "phase t1 p = Some (d\<lparr>index := c\<rparr>)"
    using d1(2) pD by (simp add: t0_def put_node_def)
  define t' where "t' = put_node p (d\<lparr>index := c, max_index := c1\<rparr>) t1"
  have sl1: "same_links t1 t'"
    using same_links_put_max_index [OF ph1, of c1] by (simp add: t'_def)
  have run: "pd_compute_indices_dom (Suc n + j) p t c = Some (Inr (t', c1))" for j
    using d r1 [of j] ph1 by (simp add: cs t0_def [symmetric] t'_def)
  have desc: "descendants t p = insert p D"
    using descendants_unfold [of t0 p] by (simp add: desc0 D_def)
  have g1: "same_links t t'"
    by (rule same_links_trans [OF same_links_trans [OF sl0 d1(1)] sl1])
  have other: "phase t' y = phase t1 y" if "y \<noteq> p" for y
    using that by (simp add: t'_def put_node_def)
  have g2: "\<forall>y. y \<notin> insert p D \<longrightarrow> phase t' y = phase t y"
  proof (intro allI impI)
    fix y assume y: "y \<notin> insert p D"
    then have "phase t' y = phase t1 y" by (intro other) simp
    also have "\<dots> = phase t0 y" using d1(2) y by simp
    also have "\<dots> = phase t y" using y by (simp add: t0_def put_node_def)
    finally show "phase t' y = phase t y" .
  qed
  have ip: "index_of t' p = c" "max_index_of t' p = c1"
    by (simp_all add: t'_def put_node_def index_of_def max_index_of_def)
  have iD: "index_of t' y = index_of t1 y" "max_index_of t' y = max_index_of t1 y" if "y \<in> D" for y
  proof -
    from that pD have "y \<noteq> p" by auto
    from other [OF this] show "index_of t' y = index_of t1 y" "max_index_of t' y = max_index_of t1 y"
      by (simp_all add: index_of_def max_index_of_def)
  qed
  have g4: "\<forall>y \<in> insert p D. c \<le> index_of t' y \<and> max_index_of t' y \<le> c1"
  proof
    fix y assume "y \<in> insert p D"
    then show "c \<le> index_of t' y \<and> max_index_of t' y \<le> c1"
    proof
      assume "y = p"
      with ip d1(3) show ?thesis by simp
    next
      assume y: "y \<in> D"
      with d1(4) lo1 have "c + 1 \<le> index_of t1 y" "max_index_of t1 y \<le> c1" by blast+
      with iD [OF y] show ?thesis by simp
    qed
  qed
  have clD: "\<forall>y \<in> D. descendants t1 y \<subseteq> D"
    unfolding same_links_descendants [OF d1(1)] D_def using descendants_trans by blast
  have nD: "nested t' D"
  proof (rule nested_frame [OF d1(5) clD _ sl1])
    show "\<forall>y \<in> D. phase t' y = phase t1 y"
    proof
      fix y assume "y \<in> D"
      with pD have "y \<noteq> p" by auto
      then show "phase t' y = phase t1 y" by (rule other)
    qed
  qed
  have desc': "descendants t' p = insert p D"
    using desc by (simp add: same_links_descendants [OF g1])
  have np: "nested t' {p}"
    unfolding nested_def
  proof (intro ballI conjI)
    fix y assume "y \<in> {p}"
    then show "index_of t' y \<le> max_index_of t' y" using ip d1(3) by simp
  next
    fix y z assume y: "y \<in> {p}" and z: "z \<in> descendants t' y"
    then have zz: "z \<in> insert p D" using desc' by simp
    have self: "index_of t' z \<le> max_index_of t' z"
    proof (cases "z = p")
      case True
      with ip d1(3) show ?thesis by simp
    next
      case False
      with zz have "z \<in> D" by simp
      with nD show ?thesis unfolding nested_def by blast
    qed
    from g4 zz have b: "c \<le> index_of t' z \<and> max_index_of t' z \<le> c1" by blast
    from y b ip show "index_of t' y \<le> index_of t' z" by simp
    from self show "index_of t' z \<le> max_index_of t' z" .
    from y b ip show "max_index_of t' z \<le> max_index_of t' y" by simp
  qed
  have g5: "nested t' (insert p D)"
    using nested_Un [OF np nD] by simp
  have g6: "dom_post t (insert p D) c t' c1"
    unfolding dom_post_def by (intro conjI g1 g2 d1(3) g4 g5)
  have ch': "children_of t' = children_of t0"
    using same_links_accessors(1) [OF g1] acc0(1) by simp
  have chD: "set (children_of t0 y) \<subseteq> D" if "y \<in> insert p D" for y
  proof
    fix x assume x: "x \<in> set (children_of t0 y)"
    from that show "x \<in> D"
    proof
      assume "y = p"
      with x show ?thesis unfolding D_def using descendants_self by blast
    next
      assume "y \<in> D"
      then obtain q where q: "q \<in> set (children_of t0 p)" "y \<in> descendants t0 q"
        by (auto simp: D_def)
      from descendants_step [OF q(2) x] q(1) show ?thesis unfolding D_def by blast
    qed
  qed
  have cong: "sibling_intervals t' a (children_of t0 y) b = sibling_intervals t1 a (children_of t0 y) b"
    if "y \<in> insert p D" for y a b
    by (rule sibling_intervals_cong) (use chD [OF that] iD in blast)
  have pin: "p \<in> insert p D" by simp
  have pp: "preorder_at t' p"
    unfolding preorder_at_def ch' ip cong [OF pin] by (rule si1)
  have pD': "preorder_at t' y" if y: "y \<in> D" for y
  proof -
    from x1 y have p: "preorder_at t1 y" by (simp add: dom_exact_def)
    from y have yin: "y \<in> insert p D" by simp
    from p show ?thesis
      unfolding preorder_at_def ch' same_links_accessors(1) [OF d1(1)] iD [OF y] cong [OF yin] .
  qed
  have g7: "dom_exact t' (insert p D)"
    unfolding dom_exact_def
  proof (intro conjI ballI impI)
    fix y assume "y \<in> insert p D"
    then show "preorder_at t' y" using pp pD' by blast
  next
    fix y z assume y: "y \<in> insert p D" and z: "z \<in> insert p D"
      and b: "index_of t' y \<le> index_of t' z \<and> index_of t' z \<le> max_index_of t' y"
    show "z \<in> descendants t' y"
    proof (cases "y = p")
      case True
      with z desc' show ?thesis by simp
    next
      case False
      with y have yD: "y \<in> D" by simp
      from lo1 yD iD(1) [OF yD] have ly: "c + 1 \<le> index_of t' y" by simp
      show ?thesis
      proof (cases "z = p")
        case True
        with ip(1) ly b show ?thesis by simp
      next
        case False
        with z have zD: "z \<in> D" by simp
        from b iD [OF yD] iD [OF zD]
        have "index_of t1 y \<le> index_of t1 z \<and> index_of t1 z \<le> max_index_of t1 y" by simp
        with x1 yD zD have "z \<in> descendants t1 y" unfolding dom_exact_def by blast
        then show ?thesis by (simp add: same_links_descendants [OF sl1])
      qed
    qed
  qed
  have "\<forall>j. pd_compute_indices_dom (Suc n + j) p t c = Some (Inr (t', c1))" using run by simp
  then show ?case unfolding desc using g6 g7 ip by blast
qed

section \<open>The construction as a whole\<close>

lemma pd_dominates_fields:
  assumes "A \<in> dom (phase t)" and "B \<in> dom (phase t)"
  shows "pd_dominates t A B
           = Inr (index_of t A \<le> index_of t B \<and> index_of t B \<le> max_index_of t A)"
  using assms
  by (auto simp: pd_dominates_def phase_get_irn_data_def index_of_def max_index_of_def)

lemma solver_inv_tree_shape:
  assumes inv: "solver_inv g t"
  shows "tree_shape (\<lambda>x. nat (index_of t x)) t"
  unfolding tree_shape_def
proof (intro allI conjI ballI)
  fix x
  show "distinct (children_of t x)"
  proof (cases "x \<in> reachable g")
    case True
    with solver_invD(11) [OF inv] show ?thesis by blast
  next
    case False
    then have "phase t x = None" by (rule not_reachable_phase [OF inv])
    then show ?thesis by (simp add: children_of_def)
  qed
next
  fix x c assume c: "c \<in> set (children_of t x)"
  have xr: "x \<in> reachable g"
  proof (rule ccontr)
    assume "x \<notin> reachable g"
    then have "phase t x = None" by (rule not_reachable_phase [OF inv])
    with c show False by (simp add: children_of_def)
  qed
  with solver_invD(11) [OF inv] c have cr: "c \<in> reachable g" and pc: "parent_of t c = Some x"
    by auto
  from solver_inv_phase [OF inv cr] show "phase t c \<noteq> None" by auto
  show "parent_of t c = Some x" by (rule pc)
  from solver_inv_parent_some [OF inv cr pc] have "index_of t c < index_of t x" by simp
  moreover have "0 \<le> index_of t c" by (rule solver_inv_index_range(1) [OF inv cr])
  ultimately show "nat (index_of t c) < nat (index_of t x)" by simp
qed

lemma all_descend_root:
  assumes inv: "solver_inv g t" and ad: "\<forall>y \<in> reachable g. defined_in t y"
  shows "x \<in> reachable g \<Longrightarrow> x \<in> descendants t (end_cfgpred g)"
proof (induction "nat (index_of t (end_cfgpred g) - index_of t x)" arbitrary: x rule: less_induct)
  case less
  show ?case
  proof (cases "x = end_cfgpred g")
    case True
    then show ?thesis by (simp add: descendants_self)
  next
    case False
    from ad less.prems have dx: "defined_in t x" by blast
    from solver_inv_parent [OF inv less.prems dx False] obtain p where
      p: "p \<in> reachable g" "parent_of t x = Some p" "index_of t x < index_of t p" by blast
    have "index_of t p \<le> index_of t (end_cfgpred g)" by (rule solver_inv_le_root [OF inv p(1)])
    with p(3) have "nat (index_of t (end_cfgpred g) - index_of t p)
                     < nat (index_of t (end_cfgpred g) - index_of t x)" by simp
    from less.hyps [OF this p(1)] have pd: "p \<in> descendants t (end_cfgpred g)" .
    from solver_inv_parent_some [OF inv less.prems p(2)] have "x \<in> set (children_of t p)" by simp
    then have "x \<in> descendants t p" by (rule descendants_child) (rule descendants_self)
    with pd show ?thesis by (rule descendants_trans)
  qed
qed

lemma post_det:
  assumes "pd_compute_indices_post n g x s c = Some r" and "pd_compute_indices_post m g x s c = Some r'"
  shows "r = r'"
proof -
  from post_mono [OF assms(1), of m] post_mono [OF assms(2), of n]
  show ?thesis by (simp add: add.commute)
qed

lemma compute_node_det:
  assumes "pd_compute_node n g x t = Some r" and "pd_compute_node m g x t = Some r'"
  shows "r = r'"
proof -
  from compute_node_mono [OF assms(1), of m] compute_node_mono [OF assms(2), of n]
  show ?thesis by (simp add: add.commute)
qed

lemma pd_init_det:
  assumes "pd_init n g = Some r" and "pd_init m g = Some r'"
  shows "r = r'"
proof -
  from pd_init_mono [OF assms(1), of m] pd_init_mono [OF assms(2), of n]
  show ?thesis by (simp add: add.commute)
qed

lemma solver_states_inv:
  fixes rk :: "nat \<Rightarrow> nat"
  assumes dag: "acyclic_deps g rk" and mir: "mirrored_edges g"
  shows "t \<in> solver_states g \<Longrightarrow> solver_inv g t"
proof (induction rule: solver_states.induct)
  case (init n t V c)
  from post_root_total [OF dag] obtain n' t' c' where
    r: "\<And>j. pd_compute_indices_post (n' + j) g (end_cfgpred g) (pd_init_root (end_cfgpred g), {}) 0
            = Some ((t', reachable g), c')"
    and pi: "post_inv g {} t' (reachable g) c'"
    by blast
  from post_det [OF init r [of 0]] have "t = t'" by simp
  with post_inv_solver_inv [OF pi] show ?case by simp
next
  case (step t x n t' ch)
  note inv = step.IH
  from step.hyps(3) obtain dx where dx: "phase t x = Some dx"
    by (cases "phase t x") (simp_all add: pd_compute_node_def phase_get_irn_data_def)
  have xr: "x \<in> reachable g" by (rule in_dom_reachable [OF inv dx])
  from step.hyps(3) dx obtain f where f: "pd_find_idom t (outs g x) = Some f"
    by (cases "pd_find_idom t (outs g x)")
       (simp_all add: pd_compute_node_def phase_get_irn_data_def pd_compute_idom_def)
  from find_idom_defined [OF f] have u: "\<exists>u \<in> set (outs g x). defined_in t u" by blast
  from step.hyps(2) is_root_irn_inv [OF inv, of x] have xne: "x \<noteq> end_cfgpred g" by simp
  from compute_node_total [OF inv mir xr xne u] obtain n' t'' c where
    r: "\<And>j. pd_compute_node (n' + j) g x t = Some (Inr (t'', parent_of t x \<noteq> Some c))"
    and inv'': "solver_inv g t''"
    by blast
  from compute_node_det [OF step.hyps(3) r [of 0]] have "t' = t''" by simp
  with inv'' show ?case by simp
qed

lemma pd_init_total:
  fixes rk :: "nat \<Rightarrow> nat"
  assumes wf: "peg_wf g rk"
  shows "\<exists>n t1 c1 t2 t3 c3. (\<forall>j. pd_init (n + j) g = Some (Inr t3)) \<and>
     (\<forall>j. pd_compute_indices_post (n + j) g (end_cfgpred g) (pd_init_root (end_cfgpred g), {}) 0
            = Some ((t1, reachable g), c1)) \<and>
     (\<forall>i j. pd_fixpoint (Suc (card (reachable g)) + i) (n + j) g (end_cfgpred g) t1
            = Some (Inr t2)) \<and>
     solver_inv g t2 \<and> (\<forall>y \<in> reachable g. defined_in t2 y) \<and>
     dom_post t2 (descendants t2 (end_cfgpred g)) 0 t3 c3 \<and>
     dom_exact t3 (descendants t2 (end_cfgpred g)) \<and>
     index_of t3 (end_cfgpred g) = 0 \<and> max_index_of t3 (end_cfgpred g) = c3"
proof -
  from wf have ret: "is_Return g (end_cfgpred g)" and dag: "acyclic_deps g rk"
    and mir: "mirrored_edges g"
    unfolding peg_wf_def by simp_all
  let ?r = "end_cfgpred g"
  from post_root_total [OF dag] obtain n1 t1 c1 where
    r1: "\<And>j. pd_compute_indices_post (n1 + j) g ?r (pd_init_root ?r, {}) 0
            = Some ((t1, reachable g), c1)"
    and pi: "post_inv g {} t1 (reachable g) c1"
    by blast
  from post_inv_solver_inv [OF pi] have inv1: "solver_inv g t1"
    and s1: "settled_from g t1 (int (card (reachable g)))" by simp_all
  define p where "p = Suc (card (reachable g))"
  from fixpoint_total [OF dag mir inv1 s1] obtain n2 t2 where
    r2: "\<And>i j. pd_fixpoint (p + i) (n2 + j) g ?r t1 = Some (Inr t2)"
    and inv2: "solver_inv g t2" and ad2: "\<forall>y \<in> reachable g. defined_in t2 y"
    unfolding p_def by blast
  have ts2: "tree_shape (\<lambda>x. nat (index_of t2 x)) t2" by (rule solver_inv_tree_shape [OF inv2])
  from solver_inv_phase [OF inv2 reachable_root] have pr: "phase t2 ?r \<noteq> None" by auto
  from dom_total [OF ts2 pr, of 0] obtain n3 t3 c3 where
    r3: "\<And>j. pd_compute_indices_dom (n3 + j) ?r t2 0 = Some (Inr (t3, c3))"
    and p3: "dom_post t2 (descendants t2 ?r) 0 t3 c3"
    and x3: "dom_exact t3 (descendants t2 ?r)"
    and i3: "index_of t3 ?r = 0" "max_index_of t3 ?r = c3"
    by blast
  have rt2: "root t2 = ?r" by (rule solver_invD(1) [OF inv2])
  have "pd_init (n1 + p + n2 + n3 + j) g = Some (Inr t3)" for j
  proof -
    have a: "pd_compute_indices_post (n1 + p + n2 + n3 + j) g ?r (pd_init_root ?r, {}) 0
            = Some ((t1, reachable g), c1)"
      using r1 [of "p + n2 + n3 + j"] by (simp add: add.assoc)
    have b: "pd_fixpoint (n1 + p + n2 + n3 + j) (n1 + p + n2 + n3 + j) g ?r t1 = Some (Inr t2)"
      using r2 [of "n1 + n2 + n3 + j" "n1 + p + n3 + j"] by (simp add: ac_simps)
    have c: "pd_compute_indices_dom (n1 + p + n2 + n3 + j) ?r t2 0 = Some (Inr (t3, c3))"
      using r3 [of "n1 + p + n2 + j"] by (simp add: ac_simps)
    show ?thesis using ret a b c rt2 by (simp add: pd_init_def)
  qed
  moreover have "pd_compute_indices_post (n1 + p + n2 + n3 + j) g ?r (pd_init_root ?r, {}) 0
            = Some ((t1, reachable g), c1)" for j
    using r1 [of "p + n2 + n3 + j"] by (simp add: add.assoc)
  moreover have "pd_fixpoint (Suc (card (reachable g)) + i) (n1 + p + n2 + n3 + j) g ?r t1
            = Some (Inr t2)" for i j
    using r2 [of i "n1 + p + n3 + j"] by (simp add: ac_simps p_def)
  ultimately show ?thesis using inv2 ad2 p3 x3 i3 by blast
qed

lemma diamond_wf: "peg_wf (diamond_graph [1, 2]) (\<lambda>n. 3 - n)"
proof -
  have "mirrored_edges (diamond_graph [1, 2])"
    unfolding mirrored_edges_def diamond_reachable
    by (simp add: diamond_graph_def)
  moreover have "is_Return (diamond_graph [1, 2]) (end_cfgpred (diamond_graph [1, 2]))"
    by (simp add: diamond_graph_def)
  ultimately show ?thesis unfolding peg_wf_def using diamond_acyclic by simp
qed

text \<open>The trees a pass goes through are solver states.\<close>

lemma compute_deps_states_step:
  assumes node: "\<And>x t V t' V' ch. t \<in> solver_states g \<Longrightarrow>
      pd_compute n g x (t, V) = Some (Inr ((t', V'), ch)) \<Longrightarrow> t' \<in> solver_states g"
  shows "t \<in> solver_states g \<Longrightarrow> pd_compute_deps n g ds (t, V) = Some (Inr ((t', V'), ch)) \<Longrightarrow>
         t' \<in> solver_states g"
proof (induction ds arbitrary: t V ch)
  case Nil
  then show ?case by simp
next
  case (Cons d ds)
  from Cons.prems(2) obtain t1 V1 ch1 where
    a: "pd_compute n g d (t, V) = Some (Inr ((t1, V1), ch1))"
    by (cases "pd_compute n g d (t, V)") (auto split: sum.splits)
  from Cons.prems(2) a obtain ch2 where
    b: "pd_compute_deps n g ds (t1, V1) = Some (Inr ((t', V'), ch2))"
    by (cases "pd_compute_deps n g ds (t1, V1)") (auto split: sum.splits)
  from node [OF Cons.prems(1) a] have "t1 \<in> solver_states g" .
  from Cons.IH [OF this b] show ?case .
qed

lemma compute_states:
  "t \<in> solver_states g \<Longrightarrow> pd_compute n g x (t, V) = Some (Inr ((t', V'), ch)) \<Longrightarrow>
   t' \<in> solver_states g"
proof (induction n arbitrary: x t V t' V' ch)
  case 0
  then show ?case by simp
next
  case (Suc n)
  show ?case
  proof (cases "x \<in> V")
    case True
    with Suc.prems show ?thesis by simp
  next
    case False
    from Suc.prems(2) False obtain isr where isr: "is_root_irn t x = Inr isr"
      by (cases "is_root_irn t x") simp_all
    define body where "body = (if isr then Some (Inr (t, False)) else pd_compute_node n g x t)"
    from Suc.prems(2) False isr obtain t1 ch1 where b: "body = Some (Inr (t1, ch1))"
      by (cases body) (auto simp: body_def split: sum.splits)
    have t1: "t1 \<in> solver_states g"
    proof (cases isr)
      case True
      with b Suc.prems(1) show ?thesis by (simp add: body_def)
    next
      case False
      with b have "pd_compute_node n g x t = Some (Inr (t1, ch1))" by (simp add: body_def)
      with Suc.prems(1) isr False show ?thesis by (auto intro: solver_states.step)
    qed
    from Suc.prems(2) False isr b obtain ch2 where
      d: "pd_compute_deps n g (ins g x) (t1, insert x V) = Some (Inr ((t', V'), ch2))"
      by (cases "pd_compute_deps n g (ins g x) (t1, insert x V)")
         (auto simp: body_def split: sum.splits)
    show ?thesis by (rule compute_deps_states_step [OF Suc.IH t1 d])
  qed
qed

lemma fixpoint_states:
  "t \<in> solver_states g \<Longrightarrow> pd_fixpoint p n g x t = Some (Inr t') \<Longrightarrow> t' \<in> solver_states g"
proof (induction p arbitrary: t)
  case 0
  then show ?case by simp
next
  case (Suc p)
  from Suc.prems(2) obtain t1 V1 ch where
    a: "pd_compute n g x (t, {}) = Some (Inr ((t1, V1), ch))"
    by (cases "pd_compute n g x (t, {})") (auto split: sum.splits)
  have t1: "t1 \<in> solver_states g" by (rule compute_states [OF Suc.prems(1) a])
  show ?case
  proof (cases ch)
    case True
    with Suc.prems(2) a have "pd_fixpoint p n g x t1 = Some (Inr t')" by simp
    from Suc.IH [OF t1 this] show ?thesis .
  next
    case False
    with Suc.prems(2) a t1 show ?thesis by simp
  qed
qed

lemma diamond_records:
  "case pd_init 10 (diamond_graph [1, 2]) of
     Some (Inr t) \<Rightarrow>
       phase t 0 \<noteq> None \<and> phase t 3 \<noteq> None \<and>
       index_of t 0 = 0 \<and> index_of t 3 = 3 \<and> max_index_of t 0 = 3
   | _ \<Rightarrow> False"
  by code_simp

lemma diamond_descend:
  "case pd_init 10 (diamond_graph [1, 2]) of
     Some (Inr t) \<Rightarrow> phase t 0 \<noteq> None \<and> children_of t 0 = [1, 2, 3]
   | _ \<Rightarrow> False"
  by code_simp

lemma diamond_first_step:
  "case pd_compute_indices_post 10 (diamond_graph [1, 2]) 0 (pd_init_root 0, {}) 0 of
     None \<Rightarrow> False
   | Some ((t0, V), c) \<Rightarrow>
       phase t0 1 \<noteq> None \<and> root t0 = 0 \<and> parent_of t0 1 = None \<and>
       is_root_irn t0 1 = Inr False \<and>
       (case pd_compute_node 10 (diamond_graph [1, 2]) 1 t0 of
          Some (Inr (t1, ch)) \<Rightarrow>
            ch \<and> root t1 = 0 \<and> parent_of t1 1 = Some 0 \<and> phase t1 2 \<noteq> None \<and>
            parent_of t1 2 = None
        | _ \<Rightarrow> False)"
  by code_simp

section \<open>The solver without assertions\<close>

text \<open>Where the solver with assertions returns a tree, the one without returns the same.\<close>

lemma intersect_all_ndebug_Some:
  "pd_intersect_all_ndebug fuel t srcs (Some c)
     = map_option (map_sum id Some) (pd_intersect_all fuel t srcs c)"
proof (induction srcs arbitrary: c)
  case Nil
  show ?case by simp
next
  case (Cons s srcs)
  show ?case
  proof (cases "phase_get_irn_data t s")
    case None
    then show ?thesis by (simp add: Cons.IH pd_intersect_all.simps)
  next
    case (Some d)
    show ?thesis
    proof (cases "s \<noteq> c \<and> defined d")
      case False
      with Some show ?thesis by (auto simp: Cons.IH pd_intersect_all.simps)
    next
      case True
      show ?thesis
      proof (cases "pd_compute_intersect fuel t s c")
        case None
        with Some True show ?thesis by (simp add: pd_intersect_all.simps)
      next
        case r: (Some r)
        show ?thesis
        proof (cases r)
          case (Inl e)
          with Some True r show ?thesis by (simp add: pd_intersect_all.simps)
        next
          case (Inr j)
          with Some True r show ?thesis by (simp add: Cons.IH pd_intersect_all.simps)
        qed
      qed
    qed
  qed
qed


lemma pd_link_ndebug_Some:
  "pd_link c n t = Inr r \<Longrightarrow> pd_link_ndebug (Some c) n t = Inr r"
  unfolding pd_link_def pd_link_ndebug_def pd_set_parent_ndebug_def
  by (auto split: option.splits sum.splits if_splits)

lemma compute_node_ndebug_agrees:
  assumes "pd_compute_node fuel g n t = Some (Inr r)"
  shows "pd_compute_node_ndebug fuel g n t = Some (Inr r)"
proof -
  from assms obtain f where f: "pd_find_idom t (outs g n) = Some f"
    by (cases "pd_find_idom t (outs g n)")
       (simp_all add: pd_compute_node_def pd_compute_idom_def split: option.splits)
  from assms f obtain c where c: "pd_intersect_all fuel t (outs g n) f = Some (Inr c)"
    and l: "pd_link c n t = Inr r"
    by (cases "pd_intersect_all fuel t (outs g n) f")
       (auto simp: pd_compute_node_def pd_compute_idom_def split: option.splits sum.splits)
  show ?thesis
    by (simp add: pd_compute_node_ndebug_def f intersect_all_ndebug_Some c
        pd_link_ndebug_Some [OF l])
qed

lemma compute_deps_ndebug_agrees_step:
  assumes node: "\<And>x s r. pd_compute k g x s = Some (Inr r) \<Longrightarrow>
      pd_compute_ndebug k g x s = Some (Inr r)"
  shows "pd_compute_deps k g ds s = Some (Inr r) \<Longrightarrow> pd_compute_deps_ndebug k g ds s = Some (Inr r)"
proof (induction ds arbitrary: s r)
  case Nil
  then show ?case by simp
next
  case (Cons d ds)
  from Cons.prems obtain s1 ch1 where a: "pd_compute k g d s = Some (Inr (s1, ch1))"
    by (cases "pd_compute k g d s") (auto split: sum.splits)
  from Cons.prems a obtain s2 ch2 where b: "pd_compute_deps k g ds s1 = Some (Inr (s2, ch2))"
    by (cases "pd_compute_deps k g ds s1") (auto split: sum.splits)
  from Cons.prems a b have r: "r = (s2, ch1 \<or> ch2)" by simp
  from node [OF a] Cons.IH [OF b] r show ?case by simp
qed

lemma compute_ndebug_agrees:
  "pd_compute k g x s = Some (Inr r) \<Longrightarrow> pd_compute_ndebug k g x s = Some (Inr r)"
proof (induction k arbitrary: x s r)
  case 0
  then show ?case by simp
next
  case (Suc k)
  obtain t V where s: "s = (t, V)" by (cases s)
  show ?case
  proof (cases "x \<in> V")
    case True
    with Suc.prems s show ?thesis by simp
  next
    case False
    from Suc.prems False s obtain isr where isr: "is_root_irn t x = Inr isr"
      by (cases "is_root_irn t x") simp_all
    define body where "body = (if isr then Some (Inr (t, False)) else pd_compute_node k g x t)"
    define body' where
      "body' = (if isr then Some (Inr (t, False)) else pd_compute_node_ndebug k g x t)"
    from Suc.prems False isr s obtain t1 ch1 where b: "body = Some (Inr (t1, ch1))"
      by (cases body) (auto simp: body_def split: sum.splits)
    have b': "body' = Some (Inr (t1, ch1))"
      using b compute_node_ndebug_agrees [of k g x t "(t1, ch1)"]
      by (cases isr) (simp_all add: body_def body'_def)
    from Suc.prems False isr b s obtain s2 ch2 where
      d: "pd_compute_deps k g (ins g x) (t1, insert x V) = Some (Inr (s2, ch2))"
      by (cases "pd_compute_deps k g (ins g x) (t1, insert x V)")
         (auto simp: body_def split: sum.splits)
    from Suc.prems False isr b d s have r: "r = (s2, ch1 \<or> ch2)" by (simp add: body_def)
    note d' = compute_deps_ndebug_agrees_step [OF Suc.IH d]
    show ?thesis using False isr b' d' r s by (simp add: body'_def)
  qed
qed

lemma fixpoint_ndebug_agrees:
  "pd_fixpoint p k g x t = Some (Inr t') \<Longrightarrow> pd_fixpoint_ndebug p k g x t = Some (Inr t')"
proof (induction p arbitrary: t)
  case 0
  then show ?case by simp
next
  case (Suc p)
  from Suc.prems obtain t1 V1 ch where a: "pd_compute k g x (t, {}) = Some (Inr ((t1, V1), ch))"
    by (cases "pd_compute k g x (t, {})") (auto split: sum.splits)
  note a' = compute_ndebug_agrees [OF a]
  show ?case
  proof (cases ch)
    case True
    with Suc.prems a have "pd_fixpoint p k g x t1 = Some (Inr t')" by simp
    from Suc.IH [OF this] a' True show ?thesis by simp
  next
    case False
    with Suc.prems a a' show ?thesis by simp
  qed
qed







text \<open>
  With the assertions in force the case stops the program; on the graphs the
  construction is specified for it does not arise, since construction never fails there.
\<close>

lemma compute_node_assert_fails:
  assumes "phase_get_irn_data pdt n \<noteq> None" and "pd_find_idom pdt (outs g n) = None"
  shows "pd_compute_node fuel g n pdt = Some (Inl AssertFail)"
  using assms by (auto simp: pd_compute_node_def pd_compute_idom_def)

lemma pd_init_no_failure:
  fixes rk :: "nat \<Rightarrow> nat"
  assumes wf: "peg_wf g rk"
  shows "pd_init m g \<noteq> Some (Inl e)"
proof
  assume f: "pd_init m g = Some (Inl e)"
  from pd_init_total [OF wf] obtain n t3 where r: "\<And>j. pd_init (n + j) g = Some (Inr t3)"
    by blast
  from pd_init_det [OF f r [of 0]] show False by simp
qed


section \<open>The claims\<close>

subsection \<open>C1: the dominance query is the interval test\<close>

text \<open>
  C1. For every graph that is acyclic below the sink and whose out edges mirror the
  operands, in the tree \<^verbatim>\<open>pd_init\<close> returns and for every pair of nodes \<open>A\<close>, \<open>B\<close> that have
  records, \<^verbatim>\<open>pd_dominates(tree, A, B)\<close> returns true if and only if
  \<open>index(A) \<le> index(B) \<le> max_index(A)\<close>. The bounds are the preorder bounds the tree indexer
  assigned: the root has index \<open>0\<close>, the children of \<open>A\<close> are numbered one after the other
  from \<open>index(A) + 1\<close> on, each after the last number used below its elder sibling, and
  \<open>max_index(A)\<close> is the last number used below \<open>A\<close>. Hence the query is true exactly when
  \<open>B\<close> is \<open>A\<close> or is reached from \<open>A\<close> through lists of children.
\<close>

theorem pd_dominates_interval:
  fixes rk :: "nat \<Rightarrow> nat"
  assumes wf: "peg_wf g rk" and run: "pd_init m g = Some (Inr t)"
    and a: "A \<in> dom (phase t)" and b: "B \<in> dom (phase t)"
  shows "pd_dominates t A B
           = Inr (index_of t A \<le> index_of t B \<and> index_of t B \<le> max_index_of t A) \<and>
         index_of t (root t) = 0 \<and> preorder_at t A \<and>
         (pd_dominates t A B = Inr True \<longleftrightarrow> B \<in> descendants t A)"
proof -
  from pd_init_total [OF wf] obtain n t2 t3 c3 where
    r: "\<And>j. pd_init (n + j) g = Some (Inr t3)"
    and inv2: "solver_inv g t2" and ad2: "\<forall>y \<in> reachable g. defined_in t2 y"
    and p3: "dom_post t2 (descendants t2 (end_cfgpred g)) 0 t3 c3"
    and x3: "dom_exact t3 (descendants t2 (end_cfgpred g))"
    and i3: "index_of t3 (end_cfgpred g) = 0"
    by blast
  from pd_init_det [OF run r [of 0]] have t: "t = t3" by simp
  note d = dom_postD [OF p3]
  define D where "D = descendants t2 (end_cfgpred g)"
  note x3' = x3 [folded D_def] and n3 = d(5) [folded D_def]
  have dm: "dom (phase t3) = reachable g"
    using same_links_accessors(4) [OF d(1)] solver_invD(2) [OF inv2] by simp
  from a b t dm have ar: "A \<in> reachable g" and br: "B \<in> reachable g" by simp_all
  have aD: "A \<in> D" unfolding D_def by (rule all_descend_root [OF inv2 ad2 ar])
  have bD: "B \<in> D" unfolding D_def by (rule all_descend_root [OF inv2 ad2 br])
  have q: "pd_dominates t3 A B
           = Inr (index_of t3 A \<le> index_of t3 B \<and> index_of t3 B \<le> max_index_of t3 A)"
    using a b unfolding t by (rule pd_dominates_fields)
  have rt: "root t3 = end_cfgpred g"
    using same_links_accessors(5) [OF d(1)] solver_invD(1) [OF inv2] by simp
  have i0: "index_of t3 (root t3) = 0" unfolding rt by (rule i3)
  from x3' aD have pa: "preorder_at t3 A" unfolding dom_exact_def by blast
  have fw: "B \<in> descendants t3 A"
    if "index_of t3 A \<le> index_of t3 B \<and> index_of t3 B \<le> max_index_of t3 A"
    using x3' aD bD that unfolding dom_exact_def by blast
  have bw: "index_of t3 A \<le> index_of t3 B \<and> index_of t3 B \<le> max_index_of t3 A"
    if "B \<in> descendants t3 A"
    using n3 aD that unfolding nested_def by force
  have iff: "pd_dominates t3 A B = Inr True \<longleftrightarrow> B \<in> descendants t3 A"
  proof
    assume "pd_dominates t3 A B = Inr True"
    with q have "index_of t3 A \<le> index_of t3 B \<and> index_of t3 B \<le> max_index_of t3 A"
      by simp
    then show "B \<in> descendants t3 A" by (rule fw)
  next
    assume "B \<in> descendants t3 A"
    from bw [OF this] q show "pd_dominates t3 A B = Inr True" by simp
  qed
  show ?thesis unfolding t by (intro conjI q i0 pa iff)
qed

theorem pd_dominates_interval_witness:
  "peg_wf (diamond_graph [1, 2]) (\<lambda>n. 3 - n) \<and>
   (\<exists>t. pd_init 10 (diamond_graph [1, 2]) = Some (Inr t) \<and>
      0 \<in> dom (phase t) \<and> 3 \<in> dom (phase t) \<and>
      index_of t 0 = 0 \<and> index_of t 3 = 3 \<and> max_index_of t 0 = 3 \<and>
      pd_dominates t 0 3 = Inr True \<and> 3 \<in> descendants t 0 \<and> preorder_at t 0)"
proof -
  from case_result_ex [OF diamond_records] obtain t where
    t: "pd_init 10 (diamond_graph [1, 2]) = Some (Inr t)"
    and p0: "phase t 0 \<noteq> None" and p3: "phase t 3 \<noteq> None"
    and ix: "index_of t 0 = 0" "index_of t 3 = 3" "max_index_of t 0 = 3"
    by blast
  from p0 p3 have a: "0 \<in> dom (phase t)" and b: "3 \<in> dom (phase t)" by (simp_all add: domIff)
  note th = pd_dominates_interval [OF diamond_wf t a b]
  from th ix have q: "pd_dominates t 0 3 = Inr True" by simp
  with th have de: "3 \<in> descendants t 0" by blast
  from th have pa: "preorder_at t 0" by blast
  show ?thesis by (intro conjI exI [of _ t] diamond_wf t a b ix q de pa)
qed

subsection \<open>C2: the intervals are nested\<close>

text \<open>
  C2. For every graph that is acyclic below the sink and whose out edges mirror the
  operands, in the tree that \<^verbatim>\<open>pd_init\<close> returns every node \<open>v\<close> with a record has
  \<open>index(v) \<le> max_index(v)\<close>, and every descendant \<open>c\<close> of \<open>v\<close> (a node that \<open>v\<close> reaches
  through lists of children) has \<open>index(v) \<le> index(c) \<le> max_index(c) \<le> max_index(v)\<close>.
\<close>

theorem interval_nesting:
  fixes rk :: "nat \<Rightarrow> nat"
  assumes wf: "peg_wf g rk" and run: "pd_init m g = Some (Inr t)"
    and v: "v \<in> dom (phase t)" and c: "c \<in> descendants t v"
  shows "index_of t v \<le> max_index_of t v \<and> index_of t v \<le> index_of t c \<and>
         index_of t c \<le> max_index_of t c \<and> max_index_of t c \<le> max_index_of t v"
proof -
  from pd_init_total [OF wf] obtain n t2 t3 c3 where
    r: "\<And>j. pd_init (n + j) g = Some (Inr t3)"
    and inv2: "solver_inv g t2" and ad2: "\<forall>y \<in> reachable g. defined_in t2 y"
    and p3: "dom_post t2 (descendants t2 (end_cfgpred g)) 0 t3 c3"
    by blast
  from pd_init_det [OF run r [of 0]] have t: "t = t3" by simp
  note d = dom_postD [OF p3]
  have "dom (phase t3) = reachable g"
    using same_links_accessors(4) [OF d(1)] solver_invD(2) [OF inv2] by simp
  with v t have vr: "v \<in> reachable g" by simp
  have vd: "v \<in> descendants t2 (end_cfgpred g)" by (rule all_descend_root [OF inv2 ad2 vr])
  from c t have c3: "c \<in> descendants t3 v" by simp
  from d(5) vd c3 show ?thesis unfolding nested_def t by blast
qed


theorem interval_nesting_witness:
  "peg_wf (diamond_graph [1, 2]) (\<lambda>n. 3 - n) \<and>
   (\<exists>t. pd_init 10 (diamond_graph [1, 2]) = Some (Inr t) \<and>
      0 \<in> dom (phase t) \<and> 3 \<in> descendants t 0 \<and>
      index_of t 0 \<le> max_index_of t 0 \<and> index_of t 0 \<le> index_of t 3 \<and>
      index_of t 3 \<le> max_index_of t 3 \<and> max_index_of t 3 \<le> max_index_of t 0)"
proof -
  from case_result_ex [OF diamond_descend] obtain t where
    t: "pd_init 10 (diamond_graph [1, 2]) = Some (Inr t)"
    and p: "phase t 0 \<noteq> None" and ch: "children_of t 0 = [1, 2, 3]"
    by blast
  from p have v: "0 \<in> dom (phase t)" by (simp add: domIff)
  have "3 \<in> set (children_of t 0)" by (simp add: ch)
  then have c: "3 \<in> descendants t 0" by (rule descendants_child) (rule descendants_self)
  from interval_nesting [OF diamond_wf t v c] diamond_wf t v c show ?thesis by blast
qed

subsection \<open>C3: a node none of whose users is defined\<close>



subsection \<open>C4: the shape of the tree during construction\<close>

text \<open>
  C4, as the specification states it, does not hold: during construction there are
  records other than the root's that have no parent. On the diamond, after the post-order
  pass node \<open>A = 1\<close> has a record and no parent; and after the first reparenting step of the
  solver (which links \<open>A\<close> to the root) node \<open>B = 2\<close> still has a record and no parent.
\<close>

theorem unlinked_during_construction:
  "\<exists>t0 t1. t0 \<in> solver_states (diamond_graph [1, 2]) \<and> root t0 = 0 \<and>
     phase t0 1 \<noteq> None \<and> parent_of t0 1 = None \<and>
     pd_compute_node 10 (diamond_graph [1, 2]) 1 t0 = Some (Inr (t1, True)) \<and>
     t1 \<in> solver_states (diamond_graph [1, 2]) \<and> root t1 = 0 \<and>
     parent_of t1 1 = Some 0 \<and> phase t1 2 \<noteq> None \<and> parent_of t1 2 = None"
proof -
  let ?g = "diamond_graph [1, 2]"
  from diamond_first_step obtain t0 V c where
    r0: "pd_compute_indices_post 10 ?g 0 (pd_init_root 0, {}) 0 = Some ((t0, V), c)"
    by (cases "pd_compute_indices_post 10 ?g 0 (pd_init_root 0, {}) 0") auto
  note f = diamond_first_step [unfolded r0 option.case prod.case]
  from f have a: "phase t0 1 \<noteq> None" "root t0 = 0" "parent_of t0 1 = None"
    "is_root_irn t0 1 = Inr False" by blast+
  from f have g: "case pd_compute_node 10 ?g 1 t0 of
          Some (Inr (t1, ch)) \<Rightarrow>
            ch \<and> root t1 = 0 \<and> parent_of t1 1 = Some 0 \<and> phase t1 2 \<noteq> None \<and>
            parent_of t1 2 = None
        | _ \<Rightarrow> False" by blast
  then obtain t1 ch where r1: "pd_compute_node 10 ?g 1 t0 = Some (Inr (t1, ch))"
    by (cases "pd_compute_node 10 ?g 1 t0") (auto split: sum.splits)
  note h = g [unfolded r1 option.case sum.case prod.case]
  from h have b: "ch" "root t1 = 0" "parent_of t1 1 = Some 0" "phase t1 2 \<noteq> None"
    "parent_of t1 2 = None" by blast+
  have e: "end_cfgpred ?g = 0" by (simp add: diamond_graph_def)
  have s0: "t0 \<in> solver_states ?g"
    by (rule solver_states.init [of 10 ?g t0 V c]) (simp only: e r0)
  have s1: "t1 \<in> solver_states ?g" by (rule solver_states.step [OF s0 a(4) r1])
  from b(1) have ct: "ch = True" by simp
  note r1' = r1 [unfolded ct]
  show ?thesis
    by (intro exI [of _ t0] exI [of _ t1] conjI) (fact s0 a s1 r1' b)+
qed

text \<open>
  C4, amended. For every graph that is acyclic below the sink and whose out edges mirror
  the operands, every tree the solver can reach (the tree after the post-order pass, and
  the tree after each reparenting step, in whatever order nodes are processed) has the
  shape \<open>solver_inv\<close>: the root has no parent; a record that is not yet defined has no
  parent; every defined record other than the root has exactly one parent, which is
  defined and has a larger post-order index, so that chains of parents are finite, have
  no cycle and end at the root; and each list of children holds, once each, exactly the
  nodes whose parent the node is. (\<open>compute_states\<close> and \<open>fixpoint_states\<close> show that the
  trees of a pass and of the fixpoint loop are among these; \<open>pd_init_total\<close> shows that at
  the end every record is defined.)
\<close>

theorem solver_tree_shape:
  fixes rk :: "nat \<Rightarrow> nat"
  assumes "peg_wf g rk" and "t \<in> solver_states g"
  shows "solver_inv g t"
proof -
  from assms(1) have "acyclic_deps g rk" and "mirrored_edges g"
    unfolding peg_wf_def by simp_all
  then show ?thesis using assms(2) by (rule solver_states_inv)
qed

theorem solver_tree_shape_witness:
  "\<exists>t1. peg_wf (diamond_graph [1, 2]) (\<lambda>n. 3 - n) \<and> t1 \<in> solver_states (diamond_graph [1, 2]) \<and>
     parent_of t1 1 = Some 0 \<and> solver_inv (diamond_graph [1, 2]) t1"
proof -
  from diamond_first_step obtain t0 V c where
    r0: "pd_compute_indices_post 10 (diamond_graph [1, 2]) 0 (pd_init_root 0, {}) 0
           = Some ((t0, V), c)"
    by (cases "pd_compute_indices_post 10 (diamond_graph [1, 2]) 0 (pd_init_root 0, {}) 0") auto
  note f = diamond_first_step [unfolded r0 option.case prod.case]
  from f have a: "is_root_irn t0 1 = Inr False" by blast
  from f have g: "case pd_compute_node 10 (diamond_graph [1, 2]) 1 t0 of
          Some (Inr (t1, ch)) \<Rightarrow>
            ch \<and> root t1 = 0 \<and> parent_of t1 1 = Some 0 \<and> phase t1 2 \<noteq> None \<and>
            parent_of t1 2 = None
        | _ \<Rightarrow> False" by blast
  then obtain t1 ch where r1: "pd_compute_node 10 (diamond_graph [1, 2]) 1 t0 = Some (Inr (t1, ch))"
    by (cases "pd_compute_node 10 (diamond_graph [1, 2]) 1 t0") (auto split: sum.splits)
  note h = g [unfolded r1 option.case sum.case prod.case]
  from h have b: "parent_of t1 1 = Some 0" by blast
  have e: "end_cfgpred (diamond_graph [1, 2]) = 0" by (simp add: diamond_graph_def)
  have s0: "t0 \<in> solver_states (diamond_graph [1, 2])"
    by (rule solver_states.init [of 10 "diamond_graph [1, 2]" t0 V c]) (simp only: e r0)
  have s1: "t1 \<in> solver_states (diamond_graph [1, 2])"
    by (rule solver_states.step [OF s0 a r1])
  from solver_tree_shape [OF diamond_wf s1] diamond_wf s1 b show ?thesis by blast
qed

subsection \<open>C5: construction terminates\<close>

text \<open>
  C5. For every graph that is acyclic below the sink and whose out edges mirror the
  operands, construction returns a tree, and the same tree for every fuel from some bound
  on: the post-order pass returns, every intersection walk of every pass returns, the
  fixpoint loop reaches a pass without change within one pass more than there are
  reachable nodes, and the tree indexer returns.
\<close>

theorem pd_init_terminates:
  fixes rk :: "nat \<Rightarrow> nat"
  assumes "peg_wf g rk"
  shows "\<exists>n t1 c1 t2 t.
     (\<forall>j. pd_init (n + j) g = Some (Inr t)) \<and>
     (\<forall>j. pd_compute_indices_post (n + j) g (end_cfgpred g) (pd_init_root (end_cfgpred g), {}) 0
            = Some ((t1, reachable g), c1)) \<and>
     (\<forall>i j. pd_fixpoint (Suc (card (reachable g)) + i) (n + j) g (end_cfgpred g) t1
            = Some (Inr t2))"
  using pd_init_total [OF assms] by blast

theorem pd_init_terminates_witness:
  "peg_wf (diamond_graph [1, 2]) (\<lambda>n. 3 - n) \<and>
   (\<exists>n t. \<forall>j. pd_init (n + j) (diamond_graph [1, 2]) = Some (Inr t))"
  using pd_init_terminates [OF diamond_wf] diamond_wf by blast

subsection \<open>C6: the post-order indices\<close>

text \<open>
  C6. For every graph that is acyclic below the sink, the post-order traversal returns
  (for every fuel from some bound on); the nodes it visits are exactly the nodes
  reachable from the sink, each of them has a record, the counter it returns is their
  number (one index is handed out per visited node), the indices are a bijection between
  the reachable nodes and \<open>0 .. n - 1\<close>, and the index of every operand of a node is smaller
  than the index of the node.
\<close>

theorem post_order_indices:
  fixes rk :: "nat \<Rightarrow> nat"
  assumes "acyclic_deps g rk"
  shows "\<exists>n t c.
     (\<forall>j. pd_compute_indices_post (n + j) g (end_cfgpred g) (pd_init_root (end_cfgpred g), {}) 0
            = Some ((t, reachable g), c)) \<and>
     finite (reachable g) \<and> dom (phase t) = reachable g \<and> c = int (card (reachable g)) \<and>
     bij_betw (index_of t) (reachable g) {0..<c} \<and>
     (\<forall>x \<in> reachable g. \<forall>d \<in> set (ins g x). index_of t d < index_of t x)"
proof -
  from post_root_total [OF assms] obtain n t c where
    r: "\<And>j. pd_compute_indices_post (n + j) g (end_cfgpred g) (pd_init_root (end_cfgpred g), {}) 0
            = Some ((t, reachable g), c)"
    and i: "post_inv g {} t (reachable g) c"
    by blast
  note d = post_invD [OF i]
  have fin: "finite (reachable g)" by (rule d(1))
  have dm: "dom (phase t) = reachable g" using d(6) reachable_root [of g] by auto
  have img: "index_of t ` reachable g = {0..<c}" using d(8) by simp
  have inj: "inj_on (index_of t) (reachable g)" using d(9) by simp
  have bij: "bij_betw (index_of t) (reachable g) {0..<c}"
    unfolding bij_betw_def using inj img by simp
  have "card (reachable g) = card {0..<c}" by (rule bij_betw_same_card [OF bij])
  then have cc: "c = int (card (reachable g))" using d(5) by simp
  have ord: "\<forall>x \<in> reachable g. \<forall>d \<in> set (ins g x). index_of t d < index_of t x"
    using d(10) by simp
  from r fin dm cc bij ord show ?thesis by blast
qed

theorem post_order_indices_witness:
  "acyclic_deps (diamond_graph [1, 2]) (\<lambda>n. 3 - n) \<and>
   (\<exists>n t c.
     (\<forall>j. pd_compute_indices_post (n + j) (diamond_graph [1, 2]) (end_cfgpred (diamond_graph [1, 2]))
             (pd_init_root (end_cfgpred (diamond_graph [1, 2])), {}) 0
            = Some ((t, reachable (diamond_graph [1, 2])), c)) \<and>
     finite (reachable (diamond_graph [1, 2])) \<and> dom (phase t) = reachable (diamond_graph [1, 2]) \<and>
     c = int (card (reachable (diamond_graph [1, 2]))) \<and>
     bij_betw (index_of t) (reachable (diamond_graph [1, 2])) {0..<c} \<and>
     index_of t 3 < index_of t 1)"
proof -
  have h: "acyclic_deps (diamond_graph [1, 2]) (\<lambda>n. 3 - n)" by (rule diamond_acyclic)
  from post_order_indices [OF h] obtain n t c where
    r: "\<forall>j. pd_compute_indices_post (n + j) (diamond_graph [1, 2]) (end_cfgpred (diamond_graph [1, 2]))
             (pd_init_root (end_cfgpred (diamond_graph [1, 2])), {}) 0
            = Some ((t, reachable (diamond_graph [1, 2])), c)"
    and f: "finite (reachable (diamond_graph [1, 2]))"
    and dm: "dom (phase t) = reachable (diamond_graph [1, 2])"
    and cc: "c = int (card (reachable (diamond_graph [1, 2])))"
    and bij: "bij_betw (index_of t) (reachable (diamond_graph [1, 2])) {0..<c}"
    and ord: "\<forall>x \<in> reachable (diamond_graph [1, 2]). \<forall>d \<in> set (ins (diamond_graph [1, 2]) x).
                index_of t d < index_of t x"
    by blast
  have "1 \<in> reachable (diamond_graph [1, 2])" by (simp add: diamond_reachable)
  moreover have "3 \<in> set (ins (diamond_graph [1, 2]) 1)" by (simp add: diamond_graph_def)
  ultimately have "index_of t 3 < index_of t 1" using ord by blast
  with h r f dm cc bij show ?thesis by blast
qed

subsection \<open>C7: the diamond\<close>

text \<open>
  C7. For the graph with sink \<open>R\<close> and nodes \<open>A\<close>, \<open>B\<close>, \<open>C\<close> where \<open>R\<close> uses \<open>A\<close> and \<open>B\<close>, and
  \<open>A\<close> and \<open>B\<close> both use \<open>C\<close>, construction returns a tree in which \<open>A\<close>, \<open>B\<close> and \<open>C\<close> are
  the children of \<open>R\<close>, \<open>dominates(R, C)\<close> is true, and \<open>dominates(A, C)\<close> and
  \<open>dominates(C, A)\<close> are false; for either order of the out edges of \<open>C\<close> and for every
  fuel from 10 on.
\<close>

theorem diamond_dominator_tree:
  "(\<exists>t. pd_init (10 + k) (diamond_graph [1, 2]) = Some (Inr t) \<and> diamond_expected t) \<and>
   (\<exists>t. pd_init (10 + k) (diamond_graph [2, 1]) = Some (Inr t) \<and> diamond_expected t)"
proof -
  from case_result_ex [OF diamond_eval_12] obtain t where
    "pd_init 10 (diamond_graph [1, 2]) = Some (Inr t)" and t: "diamond_expected t" by blast
  from pd_init_mono [OF this(1), of k] t
  have a: "\<exists>t. pd_init (10 + k) (diamond_graph [1, 2]) = Some (Inr t) \<and> diamond_expected t"
    by blast
  from case_result_ex [OF diamond_eval_21] obtain t where
    "pd_init 10 (diamond_graph [2, 1]) = Some (Inr t)" and t: "diamond_expected t" by blast
  from pd_init_mono [OF this(1), of k] t
  have b: "\<exists>t. pd_init (10 + k) (diamond_graph [2, 1]) = Some (Inr t) \<and> diamond_expected t"
    by blast
  from a b show ?thesis by blast
qed

subsection \<open>C8: the graph of one node\<close>

text \<open>
  C8. For a graph whose sink has no operands (and so no users that could be reached),
  construction succeeds with any positive fuel and returns a tree that holds the record
  of the sink only: the sink is the root, it has no parent and no children, and it
  dominates itself.
\<close>

theorem single_node_tree:
  assumes "is_Return g (end_cfgpred g)" and "ins g (end_cfgpred g) = []"
  shows "\<exists>t. pd_init (Suc k) g = Some (Inr t) \<and>
           dom (phase t) = {end_cfgpred g} \<and> pd_get_root t = Inr (Some (end_cfgpred g)) \<and>
           pd_get_parent t (end_cfgpred g) = Inr None \<and>
           pd_get_children_count t (end_cfgpred g) = Inr 0 \<and>
           pd_dominates t (end_cfgpred g) (end_cfgpred g) = Inr True"
  using assms
  by (simp add: pd_init_def pd_init_root_def pd_init_node_def put_node_def Let_def
      phase_get_or_set_irn_data_def is_root_irn_def pd_get_root_def pd_get_parent_def
      pd_get_children_count_def pd_dominates_def phase_get_irn_data_def)

theorem single_node_tree_witness:
  "is_Return single_graph (end_cfgpred single_graph) \<and>
   ins single_graph (end_cfgpred single_graph) = [] \<and>
   (\<exists>t. pd_init (Suc 0) single_graph = Some (Inr t) \<and>
      dom (phase t) = {end_cfgpred single_graph} \<and>
      pd_get_root t = Inr (Some (end_cfgpred single_graph)) \<and>
      pd_get_parent t (end_cfgpred single_graph) = Inr None \<and>
      pd_get_children_count t (end_cfgpred single_graph) = Inr 0 \<and>
      pd_dominates t (end_cfgpred single_graph) (end_cfgpred single_graph) = Inr True)"
proof -
  have h1: "is_Return single_graph (end_cfgpred single_graph)" by (simp add: single_graph_def)
  have h2: "ins single_graph (end_cfgpred single_graph) = []" by (simp add: single_graph_def)
  from single_node_tree [OF h1 h2, of 0] h1 h2 show ?thesis by blast
qed

subsection \<open>C9: queries on a node without a record\<close>

text \<open>
  C9. \<^verbatim>\<open>pd_get_parent\<close>, \<^verbatim>\<open>pd_get_children_count\<close> and \<^verbatim>\<open>pd_children_iter_init\<close> assert
  that the node has a record. \<^verbatim>\<open>pd_dominates\<close> has no such assertion: on the tree of the
  graph of one node, a query with node \<open>1\<close> (which has no record) on either side reads
  through the \<^verbatim>\<open>NULL\<close> pointer.
\<close>

theorem pd_dominates_missing_assert:
  "\<exists>t. pd_init 1 single_graph = Some (Inr t) \<and> phase_get_irn_data t 1 = None \<and>
     pd_dominates t 0 1 = Inl NullDeref \<and> pd_dominates t 1 0 = Inl NullDeref \<and>
     pd_get_parent t 1 = Inl AssertFail \<and> pd_get_children_count t 1 = Inl AssertFail \<and>
     pd_children_iter_init t 1 = Inl AssertFail"
  by (simp add: pd_init_def single_graph_def pd_init_root_def pd_init_node_def put_node_def
      phase_get_or_set_irn_data_def is_root_irn_def pd_get_parent_def
      pd_get_children_count_def pd_dominates_def phase_get_irn_data_def pd_children_iter_init_def)

subsection \<open>C10: iterating over the children\<close>

text \<open>
  C10. For a node \<open>A\<close> with a record, whose children are records that carry their node,
  \<^verbatim>\<open>pd_children_iter_init\<close> followed by calls of \<^verbatim>\<open>pd_children_iter_next\<close> returns the
  children of \<open>A\<close> in list order and then \<^verbatim>\<open>NULL\<close> for every further call; the number of
  nodes returned is \<^verbatim>\<open>pd_get_children_count(A)\<close>, and the iterator ends as \<^verbatim>\<open>NULL\<close>.
\<close>

theorem pd_children_iteration:
  assumes "phase_get_irn_data pdt A = Some pdn"
    and "\<forall>c \<in> set (children pdn). \<exists>d. phase pdt c = Some d \<and> irn d = Some c"
  shows "\<exists>it. pd_children_iter_init pdt A = Inr it \<and>
           pd_children_iter_take (length (children pdn) + k) pdt it
             = Inr (map Some (children pdn) @ replicate k None, []) \<and>
           pd_get_children_count pdt A = Inr (int (length (children pdn)))"
  using assms pd_children_iter_take_all [OF assms(2), of k]
  by (simp add: pd_children_iter_init_def pd_get_children_count_def)

theorem pd_children_iteration_witness:
  "\<exists>t. pd_init 10 (diamond_graph [1, 2]) = Some (Inr t) \<and>
     (\<exists>it. pd_children_iter_init t 0 = Inr it \<and>
        pd_children_iter_take (3 + 2) t it = Inr ([Some 1, Some 2, Some 3, None, None], []) \<and>
        pd_get_children_count t 0 = Inr 3)"
proof -
  from case_result_ex [OF diamond_children_12] obtain t where
    t: "pd_init 10 (diamond_graph [1, 2]) = Some (Inr t)"
    and p: "case phase t 0 of
              Some pdn \<Rightarrow> children pdn = [1, 2, 3] \<and>
                list_all (\<lambda>c. map_option irn (phase t c) = Some (Some c)) (children pdn)
            | None \<Rightarrow> False"
    by blast
  from p obtain pdn where a0: "phase t 0 = Some pdn"
    by (cases "phase t 0") simp_all
  then have a: "phase_get_irn_data t 0 = Some pdn" by (simp add: phase_get_irn_data_def)
  note cd = p [unfolded a0 option.case]
  from cd have c: "children pdn = [1, 2, 3]" by (rule conjunct1)
  from cd have d: "list_all (\<lambda>c. map_option irn (phase t c) = Some (Some c)) (children pdn)"
    by (rule conjunct2)
  from d have "\<forall>c \<in> set (children pdn). \<exists>d. phase t c = Some d \<and> irn d = Some c"
    unfolding list_all_iff by blast
  from pd_children_iteration [OF a this, of 2] t c show ?thesis
    by (auto simp: numeral_eq_Suc)
qed


end
